theory Spec2Isabelle
  imports Main "HOL-Library.Char_ord" "HOL-Library.List_Lexorder" "HOL-Library.AList"
begin

section \<open>Shared vocabulary\<close>

text \<open>
  Mutant ids, artifact names and file contents are Python \<open>str\<close> / \<open>bytes\<close> values; both are
  modelled as \<open>char list\<close>. \<open>sorted\<close> on a list of \<open>str\<close> is the lexicographic order on the
  characters' codes, which is the order \<open>HOL-Library.List_Lexorder\<close> over \<open>HOL-Library.Char_ord\<close>
  gives to \<open>string\<close>.
\<close>

type_synonym bytes = "char list"

datatype error = IOError string | ZeroDivisionError

text \<open>
  A Python \<open>dict\<close> keeps its keys in insertion order, and \<open>run_tce\<close> iterates over one, so a
  dictionary is an association list with distinct keys. \<open>d[k] = v\<close> is \<open>AList.update k v d\<close>
  (an existing key keeps its position, a new one goes to the end); \<open>d.setdefault(k, v)\<close> adds
  the pair only when the key is absent.
\<close>

definition setdefault :: "'k \<Rightarrow> 'v \<Rightarrow> ('k \<times> 'v) list \<Rightarrow> ('k \<times> 'v) list" where
  "setdefault k v d = (case map_of d k of None \<Rightarrow> d @ [(k, v)] | Some _ \<Rightarrow> d)"

definition get_or :: "'v \<Rightarrow> ('k \<times> 'v) list \<Rightarrow> 'k \<Rightarrow> 'v" where
  "get_or v d k = (case map_of d k of None \<Rightarrow> v | Some x \<Rightarrow> x)"

section \<open>The file system seen by \<open>tce.py\<close>\<close>

text \<open>
  \<open>tce.py\<close> reads the file system through \<open>os.walk\<close>, \<open>os.path.relpath\<close>, \<open>os.path.join\<close> and
  \<open>open(path, mode='rb')\<close>. A directory is the list of its entries in the order the operating
  system lists them; an entry is a regular file with its bytes, or a directory.
\<close>

datatype node = File bytes | Dir "(string \<times> node) list"

fun is_Dir :: "node \<Rightarrow> bool" where
  "is_Dir (Dir es) = True"
| "is_Dir (File b) = False"

definition dirnames_of :: "(string \<times> node) list \<Rightarrow> string list" where
  "dirnames_of es = map fst (filter (\<lambda>e. is_Dir (snd e)) es)"

definition filenames_of :: "(string \<times> node) list \<Rightarrow> string list" where
  "filenames_of es = map fst (filter (\<lambda>e. \<not> is_Dir (snd e)) es)"

text \<open>\<open>posixpath.join(a, b)\<close>.\<close>

definition os_path_join :: "string \<Rightarrow> string \<Rightarrow> string" where
  "os_path_join a b =
     (if b \<noteq> [] \<and> hd b = CHR ''/'' then b
      else if a = [] \<or> last a = CHR ''/'' then a @ b
      else a @ ''/'' @ b)"

text \<open>
  \<open>os.path.relpath(dirpath, root)\<close> for a \<open>dirpath\<close> that \<open>os.walk(root)\<close> yields: \<open>.\<close> for the
  root itself, otherwise the names of the directories below the root, joined by \<open>/\<close>.
\<close>

fun relpath :: "string list \<Rightarrow> string" where
  "relpath [] = ''.''"
| "relpath [c] = c"
| "relpath (c # cs) = c @ ''/'' @ relpath cs"

text \<open>
  \<open>os.walk(root)\<close>, top-down: the triple of a directory first, then the walks of its
  subdirectories in listing order. The first component is already
  \<open>os.path.relpath(dirpath, root)\<close>; the argument \<open>comps\<close> is the list of directory names
  from the root down to the directory walked.
\<close>

type_synonym walk_entry = "string \<times> string list \<times> string list"

fun os_walk :: "string list \<Rightarrow> node \<Rightarrow> walk_entry list"
  and os_walk_children :: "string list \<Rightarrow> (string \<times> node) list \<Rightarrow> walk_entry list" where
  "os_walk comps (File b) = []"
| "os_walk comps (Dir es) =
     (relpath comps, dirnames_of es, filenames_of es) # os_walk_children comps es"
| "os_walk_children comps [] = []"
| "os_walk_children comps (e # es) =
     (if is_Dir (snd e) then os_walk (comps @ [fst e]) (snd e) else []) @ os_walk_children comps es"

text \<open>
  \<open>open(os.path.join(root, name), mode='rb').read()\<close> for a relative \<open>name\<close>: the name is cut at
  every \<open>/\<close>, and the components are followed from the directory \<open>root\<close>; \<open>.\<close> and the empty
  component stay where they are. The read fails (\<open>IOError\<close>) when a component is missing,
  when a file stands where a directory is needed, or when the path ends at a directory.
  An absolute \<open>name\<close> (which would make \<open>os.path.join\<close> forget \<open>root\<close>) and the component \<open>..\<close>
  leave the tree this model knows, and are reported as failed reads as well.
\<close>

fun split_path :: "string \<Rightarrow> string list" where
  "split_path [] = [[]]"
| "split_path (x # xs) =
     (if x = CHR ''/'' then [] # split_path xs
      else (case split_path xs of [] \<Rightarrow> [[x]] | w # ws \<Rightarrow> (x # w) # ws))"

fun resolve :: "node \<Rightarrow> string list \<Rightarrow> node option" where
  "resolve n [] = Some n"
| "resolve (File b) (c # cs) = None"
| "resolve (Dir es) (c # cs) =
     (if c = ''.'' \<or> c = [] then resolve (Dir es) cs
      else (case map_of es c of None \<Rightarrow> None | Some m \<Rightarrow> resolve m cs))"

definition open_rb :: "node \<Rightarrow> string \<Rightarrow> error + bytes" where
  "open_rb root name =
     (if name \<noteq> [] \<and> hd name = CHR ''/'' then Inl (IOError name)
      else (case resolve root (split_path name) of
              Some (File b) \<Rightarrow> Inr b
            | _ \<Rightarrow> Inl (IOError name)))"

section \<open>\<open>tce.py\<close>\<close>

type_synonym name_tuple = "string list"
type_synonym contents_tuple = "bytes list"
type_synonym eq_class = "string set"

text \<open>
  \<open>read_name_tuple_from_root\<close>: the contents of the named files under \<open>root\<close>, in the order of
  the names; the first failing \<open>open\<close> raises.
\<close>

fun read_name_tuple_from_root :: "name_tuple \<Rightarrow> node \<Rightarrow> error + contents_tuple" where
  "read_name_tuple_from_root [] root = Inr []"
| "read_name_tuple_from_root (name # names) root =
     (case open_rb root name of
        Inl e \<Rightarrow> Inl e
      | Inr b \<Rightarrow>
          (case read_name_tuple_from_root names root of
             Inl e \<Rightarrow> Inl e
           | Inr bs \<Rightarrow> Inr (b # bs)))"

text \<open>
  The state of \<open>run_tce\<close>. Every equivalence class is one Python \<open>set\<close> object, created by the
  \<open>setdefault\<close> at \<open>hashes[name_tuple][contents_tuple]\<close> and never replaced or removed, and
  \<open>nonsingleton_equivalence_classes\<close> holds references to these objects: a later \<open>add\<close> is seen
  through the list. So \<open>hashes\<close> is the store of the class objects, the pair
  \<open>(name_tuple, contents_tuple)\<close> is the address of one, and the list holds addresses.
\<close>

type_synonym class_ref = "name_tuple \<times> contents_tuple"

record tce_state =
  hashes :: "(name_tuple \<times> (contents_tuple \<times> eq_class) list) list"
  nonsingleton_equivalence_classes :: "class_ref list"

definition class_at :: "tce_state \<Rightarrow> class_ref \<Rightarrow> eq_class" where
  "class_at st r = get_or {} (get_or [] (hashes st) (fst r)) (snd r)"

text \<open>
  Lines 118--123 and 135--138:
  \<open>eq_class = d.setdefault(contents_tuple, set()); eq_class.add(mid);
    if len(eq_class) == 2: nonsingleton_equivalence_classes.append(eq_class)\<close>
  where \<open>d\<close> is \<open>hashes[name_tuple]\<close>.
\<close>

definition add_to_class :: "name_tuple \<Rightarrow> contents_tuple \<Rightarrow> string \<Rightarrow> tce_state \<Rightarrow> tce_state" where
  "add_to_class nt ct mid st =
     (let d = get_or [] (hashes st) nt;
          eq_class = insert mid (get_or {} d ct)
      in \<lparr>hashes = AList.update nt (AList.update ct eq_class d) (hashes st),
          nonsingleton_equivalence_classes =
            (if card eq_class = 2 then nonsingleton_equivalence_classes st @ [(nt, ct)]
             else nonsingleton_equivalence_classes st)\<rparr>)"

text \<open>The body of the loop over \<open>os.walk(root)\<close>, lines 104--123.\<close>

definition index_dir :: "string \<Rightarrow> node \<Rightarrow> walk_entry \<Rightarrow> tce_state \<Rightarrow> error + tce_state" where
  "index_dir mid root w st =
     (case w of (relp, dns, fns) \<Rightarrow>
        if fns = [] then Inr st
        else
          (let name_tuple = map (os_path_join relp) (sort fns);
               st1 = st\<lparr>hashes := setdefault name_tuple [] (hashes st)\<rparr>
           in case read_name_tuple_from_root name_tuple root of
                Inl e \<Rightarrow> Inl e
              | Inr contents_tuple \<Rightarrow> Inr (add_to_class name_tuple contents_tuple mid st1)))"

fun index_walk :: "string \<Rightarrow> node \<Rightarrow> walk_entry list \<Rightarrow> tce_state \<Rightarrow> error + tce_state" where
  "index_walk mid root [] st = Inr st"
| "index_walk mid root (w # ws) st =
     (case index_dir mid root w st of
        Inl e \<Rightarrow> Inl e
      | Inr st' \<Rightarrow> index_walk mid root ws st')"

text \<open>
  \<open>progress\<close> prints a bar; what matters here is when it raises. It returns at once when
  \<open>done % increment\<close> is not zero, and otherwise computes \<open>100*done/total\<close>, which raises
  \<open>ZeroDivisionError\<close> when \<open>total\<close> is zero (as \<open>done % increment\<close> does when \<open>increment\<close> is).
\<close>

definition progress :: "nat \<Rightarrow> nat \<Rightarrow> nat \<Rightarrow> error + unit" where
  "progress done_n total_n increment =
     (if increment = 0 then Inl ZeroDivisionError
      else if done_n mod increment \<noteq> 0 then Inr ()
      else if total_n = 0 then Inl ZeroDivisionError
      else Inr ())"

text \<open>
  The loop of lines 101--124 over \<open>enumerate(mids)\<close>. \<open>mids\<close> are the names of the
  subdirectories of \<open>mutants\<close>, and \<open>os.path.join(mutants, mid)\<close> is the subdirectory of that
  name, so the loop runs over the directory entries of \<open>mutants\<close> that are directories.
\<close>

definition mutant_dirs :: "(string \<times> node) list \<Rightarrow> (string \<times> node) list" where
  "mutant_dirs mutants = filter (\<lambda>e. is_Dir (snd e)) mutants"

fun index_mutants :: "(string \<times> node) list \<Rightarrow> nat \<Rightarrow> nat \<Rightarrow> tce_state \<Rightarrow> error + tce_state" where
  "index_mutants [] i num_mutants st = Inr st"
| "index_mutants (m # ms) i num_mutants st =
     (case index_walk (fst m) (snd m) (os_walk [] (snd m)) st of
        Inl e \<Rightarrow> Inl e
      | Inr st' \<Rightarrow>
          (case progress (i + 1) num_mutants 5 of
             Inl e \<Rightarrow> Inl e
           | Inr u \<Rightarrow> index_mutants ms (i + 1) num_mutants st'))"

text \<open>
  The loop of lines 132--139 over the keys of \<open>hashes\<close> (the loop adds no key to \<open>hashes\<close>, so
  the keys are those it starts with, in insertion order).
\<close>

fun baseline_loop :: "node \<Rightarrow> name_tuple list \<Rightarrow> nat \<Rightarrow> nat \<Rightarrow> tce_state \<Rightarrow> error + tce_state" where
  "baseline_loop program [] i num_name_tuples st = Inr st"
| "baseline_loop program (name_tuple # nts) i num_name_tuples st =
     (case read_name_tuple_from_root name_tuple program of
        Inl e \<Rightarrow> Inl e
      | Inr contents_tuple \<Rightarrow>
          (let st' = add_to_class name_tuple contents_tuple ''0'' st
           in case progress (i + 1) num_name_tuples 5 of
                Inl e \<Rightarrow> Inl e
              | Inr u \<Rightarrow> baseline_loop program nts (i + 1) num_name_tuples st'))"

text \<open>
  What \<open>run_tce\<close> writes and prints after the two loops, lines 142--167: the three lists of
  classes (the sets the references point to at that moment) and the three counts.
\<close>

record classification_result =
  all_equivalences :: "eq_class list"
  equivalent_mutants :: "eq_class list"
  redundant_mutants :: "eq_class list"
  num_total_equivalences :: int
  num_equiv_mutants :: int
  num_redundant_mutants :: int

definition count_of :: "eq_class list \<Rightarrow> int" where
  "count_of xs = sum_list (map (\<lambda>x. int (card x)) xs) - int (length xs)"

definition summarize :: "tce_state \<Rightarrow> classification_result" where
  "summarize st =
     (let classes = map (class_at st) (nonsingleton_equivalence_classes st);
          equivalent = filter (\<lambda>x. ''0'' \<in> x) classes;
          redundant = filter (\<lambda>x. ''0'' \<notin> x) classes
      in \<lparr>all_equivalences = classes,
          equivalent_mutants = equivalent,
          redundant_mutants = redundant,
          num_total_equivalences = count_of classes,
          num_equiv_mutants = count_of equivalent,
          num_redundant_mutants = count_of redundant\<rparr>)"

definition index_pass :: "(string \<times> node) list \<Rightarrow> error + tce_state" where
  "index_pass mutants =
     (let ms = mutant_dirs mutants
      in index_mutants ms 0 (length ms)
           \<lparr>hashes = [], nonsingleton_equivalence_classes = []\<rparr>)"

definition baseline_pass :: "node \<Rightarrow> tce_state \<Rightarrow> error + tce_state" where
  "baseline_pass program st =
     baseline_loop program (map fst (hashes st)) 0 (length (hashes st)) st"

text \<open>
  \<open>run_tce\<close> up to line 140: the two loops, each followed by its closing call of \<open>progress\<close>
  (\<open>increment\<close> has its default, 1). \<open>num_name_tuples\<close> is taken before the second loop.
\<close>

definition run_loops :: "(string \<times> node) list \<Rightarrow> node \<Rightarrow> error + tce_state" where
  "run_loops mutants program =
     (let num_mutants = length (mutant_dirs mutants)
      in case index_pass mutants of
           Inl e \<Rightarrow> Inl e
         | Inr st1 \<Rightarrow>
             (case progress num_mutants num_mutants 1 of
                Inl e \<Rightarrow> Inl e
              | Inr u \<Rightarrow>
                  (let num_name_tuples = length (hashes st1)
                   in case baseline_pass program st1 of
                        Inl e \<Rightarrow> Inl e
                      | Inr st2 \<Rightarrow>
                          (case progress num_name_tuples num_name_tuples 1 of
                             Inl e \<Rightarrow> Inl e
                           | Inr u \<Rightarrow> Inr st2))))"

definition run_tce :: "(string \<times> node) list \<Rightarrow> node \<Rightarrow> error + classification_result" where
  "run_tce mutants program =
     (case run_loops mutants program of
        Inl e \<Rightarrow> Inl e
      | Inr st \<Rightarrow> Inr (summarize st))"

subsection \<open>Notions the properties of \<open>tce.py\<close> are stated with\<close>

text \<open>
  What a file system guarantees of a directory tree: a name is not empty, holds no \<open>/\<close> and is
  neither \<open>.\<close> nor \<open>..\<close>, and the names in one directory differ.
\<close>

definition valid_name :: "string \<Rightarrow> bool" where
  "valid_name n = (n \<noteq> [] \<and> CHR ''/'' \<notin> set n \<and> n \<noteq> ''.'' \<and> n \<noteq> ''..'')"

fun wf_node :: "node \<Rightarrow> bool"
  and wf_entries :: "(string \<times> node) list \<Rightarrow> bool" where
  "wf_node (File b) = True"
| "wf_node (Dir es) = wf_entries es"
| "wf_entries [] = True"
| "wf_entries (e # es) =
     (valid_name (fst e) \<and> fst e \<notin> fst ` set es \<and> wf_node (snd e) \<and> wf_entries es)"

text \<open>The files of a directory with their bytes, in listing order.\<close>

fun files_of :: "(string \<times> node) list \<Rightarrow> (string \<times> bytes) list" where
  "files_of [] = []"
| "files_of ((f, File b) # es) = (f, b) # files_of es"
| "files_of ((f, Dir ds) # es) = files_of es"

text \<open>
  The directory levels of a tree: each directory of the tree, the root included, as the list of
  the directory names that lead to it from the root and the list of its entries.
\<close>

type_synonym level = "string list \<times> (string \<times> node) list"

fun dir_levels :: "string list \<Rightarrow> node \<Rightarrow> level list"
  and dir_levels_children :: "string list \<Rightarrow> (string \<times> node) list \<Rightarrow> level list" where
  "dir_levels comps (File b) = []"
| "dir_levels comps (Dir es) = (comps, es) # dir_levels_children comps es"
| "dir_levels_children comps [] = []"
| "dir_levels_children comps (e # es) =
     (if is_Dir (snd e) then dir_levels (comps @ [fst e]) (snd e) else [])
     @ dir_levels_children comps es"

text \<open>
  The artifacts of a directory level: its files, each named relative to the root of the tree.
  The ArtifactSetKey of the level is the sorted list of the artifact names, its ContentKey
  the bytes of the artifacts in the order of the sorted names.
\<close>

definition artifacts :: "level \<Rightarrow> (string \<times> bytes) list" where
  "artifacts l = map (\<lambda>fb. (relpath (fst l) @ ''/'' @ fst fb, snd fb)) (files_of (snd l))"

definition artifact_set_key :: "level \<Rightarrow> name_tuple" where
  "artifact_set_key l = sort (map fst (artifacts l))"

definition content_key :: "level \<Rightarrow> contents_tuple" where
  "content_key l = map snd (sort_key fst (artifacts l))"

text \<open>
  One registration is an ArtifactSetKey, a ContentKey and an id. The registrations of the
  mutants: for each mutant directory in turn, one for every directory level of its tree that
  has a file.
\<close>

type_synonym registration = "name_tuple \<times> contents_tuple \<times> string"

definition registrations_of :: "string \<Rightarrow> node \<Rightarrow> registration list" where
  "registrations_of mid root =
     map (\<lambda>l. (artifact_set_key l, content_key l, mid))
       (filter (\<lambda>l. files_of (snd l) \<noteq> []) (dir_levels [] root))"

definition registrations :: "(string \<times> node) list \<Rightarrow> registration list" where
  "registrations mutants =
     concat (map (\<lambda>m. registrations_of (fst m) (snd m)) (mutant_dirs mutants))"

text \<open>Registering: the insertion of lines 118--123 for each registration in turn.\<close>

fun register_all :: "registration list \<Rightarrow> tce_state \<Rightarrow> tce_state" where
  "register_all [] st = st"
| "register_all (r # rs) st = register_all rs (add_to_class (fst r) (fst (snd r)) (snd (snd r)) st)"

definition initial_state :: tce_state where
  "initial_state = \<lparr>hashes = [], nonsingleton_equivalence_classes = []\<rparr>"

text \<open>
  The registrations of the baseline: for every key of the index, in the order of the index,
  the key with the baseline's content and the id \<open>0\<close>.
\<close>

definition baseline_registrations :: "node \<Rightarrow> name_tuple list \<Rightarrow> registration list" where
  "baseline_registrations program nts =
     map (\<lambda>nt. (nt, projr (read_name_tuple_from_root nt program), ''0'')) nts"

definition insertions :: "(string \<times> node) list \<Rightarrow> node \<Rightarrow> registration list" where
  "insertions mutants program =
     (let regs = registrations mutants
      in regs @ baseline_registrations program
                 (map fst (hashes (register_all regs initial_state))))"

text \<open>The class object at an address, if there is one.\<close>

definition class_obj :: "tce_state \<Rightarrow> class_ref \<Rightarrow> eq_class option" where
  "class_obj st r =
     (case map_of (hashes st) (fst r) of None \<Rightarrow> None | Some d \<Rightarrow> map_of d (snd r))"

text \<open>
  The invariant of the list of references: every class is finite, and the list holds the
  addresses of the classes with two members or more.
\<close>

definition refs_inv :: "tce_state \<Rightarrow> bool" where
  "refs_inv st = ((\<forall>r. finite (class_at st r))
     \<and> set (nonsingleton_equivalence_classes st) = {r. 2 \<le> card (class_at st r)})"

text \<open>
  An insertion at the threshold: the id is new to its class, the class grows by one member,
  and its address is appended to the list of references exactly when the class goes from
  one member to two.
\<close>

definition appended_at_threshold :: "tce_state \<Rightarrow> registration \<Rightarrow> bool" where
  "appended_at_threshold before reg =
     (let r = (fst reg, fst (snd reg));
          after = add_to_class (fst reg) (fst (snd reg)) (snd (snd reg)) before
      in snd (snd reg) \<notin> class_at before r
         \<and> card (class_at after r) = Suc (card (class_at before r))
         \<and> nonsingleton_equivalence_classes after =
             (if card (class_at before r) = 1 \<and> card (class_at after r) = 2
              then nonsingleton_equivalence_classes before @ [r]
              else nonsingleton_equivalence_classes before))"

section \<open>\<open>compare_equiv_files.py\<close>\<close>

text \<open>
  \<open>x.strip()\<close> and \<open>x.split()\<close> on a line cut at the characters for which \<open>str.isspace\<close> holds.
  A \<open>char\<close> is a code below 256, and the white space among these codes is 9 to 13, 28 to 32,
  133 (U+0085) and 160 (U+00A0).
\<close>

definition is_space :: "char \<Rightarrow> bool" where
  "is_space c =
     (let n = (of_char c :: nat)
      in (9 \<le> n \<and> n \<le> 13) \<or> (28 \<le> n \<and> n \<le> 32) \<or> n = 133 \<or> n = 160)"

definition py_strip :: "string \<Rightarrow> string" where
  "py_strip x = rev (dropWhile is_space (rev (dropWhile is_space x)))"

fun py_split_from :: "string \<Rightarrow> string \<Rightarrow> string list" where
  "py_split_from w [] = (if w = [] then [] else [w])"
| "py_split_from w (c # cs) =
     (if is_space c then (if w = [] then [] else [w]) @ py_split_from [] cs
      else py_split_from (w @ [c]) cs)"

definition py_split :: "string \<Rightarrow> string list" where
  "py_split x = py_split_from [] x"

text \<open>Lines 29--30: \<open>[x.strip().split() for x in f1 if x.strip()]\<close>.\<close>

definition read_equivs :: "string list \<Rightarrow> string list list" where
  "read_equivs f = map (\<lambda>x. py_split (py_strip x)) (filter (\<lambda>x. py_strip x \<noteq> []) f)"

text \<open>
  A class in the comparator is a Python \<open>set\<close> built by \<open>set(equiv_class)\<close> and never changed
  afterwards. The loops \<open>for m in ec1\<close> run over it in the set's iteration order, which
  Python leaves open; the order is a parameter \<open>order\<close> of the model, a function of the token
  list the set is built from, and a class is the list of its members in that order. Membership
  and \<open>issubset\<close> look at the members only (\<open>set\<close> of the list).
\<close>

type_synonym pyset = "string list"
type_synonym mid_map = "(string \<times> pyset) list"

definition valid_order :: "(string list \<Rightarrow> pyset) \<Rightarrow> bool" where
  "valid_order order = (\<forall>xs. distinct (order xs) \<and> set (order xs) = set xs)"

text \<open>Lines 39--40 and 43--44: \<open>for elem in equiv_class: mid_map[elem] = set(equiv_class)\<close>.\<close>

fun add_elems :: "pyset \<Rightarrow> string list \<Rightarrow> mid_map \<Rightarrow> mid_map" where
  "add_elems s [] mm = mm"
| "add_elems s (elem # elems) mm = add_elems s elems (AList.update elem s mm)"

fun build_mid_map :: "(string list \<Rightarrow> pyset) \<Rightarrow> string list list \<Rightarrow> mid_map \<Rightarrow> mid_map" where
  "build_mid_map order [] mm = mm"
| "build_mid_map order (equiv_class # rest) mm =
     build_mid_map order rest (add_elems (order equiv_class) equiv_class mm)"

text \<open>
  Lines 32, 38, 42 and 46--47: the set \<open>mids\<close> of all tokens of both files, with \<open>0\<close> removed.
  Nothing after line 47 reads \<open>mids\<close>.
\<close>

definition mids_of :: "string list list \<Rightarrow> string list list \<Rightarrow> string set" where
  "mids_of equivs1 equivs2 = (\<Union> (set ` set equivs1) \<union> \<Union> (set ` set equivs2)) - {''0''}"

text \<open>
  A printed line: line 71 and line 98 print one class alone, line 74 and line 101 print a class
  and the list of classes found in the other file.
\<close>

datatype report = Alone pyset | Both pyset "pyset list"

text \<open>The inner loop of the first visit, lines 59--68.\<close>

fun collect_classes_2 :: "mid_map \<Rightarrow> string list \<Rightarrow> string set \<Rightarrow> pyset list \<Rightarrow> pyset list" where
  "collect_classes_2 mid_map_2 [] nested_visited equiv_classes_2 = equiv_classes_2"
| "collect_classes_2 mid_map_2 (m # ms) nested_visited equiv_classes_2 =
     (if m \<in> nested_visited then collect_classes_2 mid_map_2 ms nested_visited equiv_classes_2
      else (case map_of mid_map_2 m of
              None \<Rightarrow> collect_classes_2 mid_map_2 ms nested_visited equiv_classes_2
            | Some ec2 \<Rightarrow>
                collect_classes_2 mid_map_2 ms (nested_visited \<union> set ec2) (equiv_classes_2 @ [ec2])))"

text \<open>
  The first visit, lines 51--74. The loop \<open>for mid in mid_map_1: ... ec1 = mid_map_1[mid]\<close> runs
  over the items of the dictionary, which the loop does not change.
\<close>

fun visit_file1 :: "mid_map \<Rightarrow> mid_map \<Rightarrow> string set \<Rightarrow> report list" where
  "visit_file1 [] mid_map_2 visited = []"
| "visit_file1 ((mid, ec1) # rest) mid_map_2 visited =
     (if mid \<in> visited then visit_file1 rest mid_map_2 visited
      else
        (let equiv_classes_2 = collect_classes_2 mid_map_2 ec1 {} []
         in (if length equiv_classes_2 \<noteq> 1 then [Alone ec1]
             else if \<not> set ec1 \<subseteq> set (hd equiv_classes_2) then [Both ec1 equiv_classes_2]
             else [])
            @ visit_file1 rest mid_map_2 (visited \<union> set ec1)))"

text \<open>
  The inner loop of the second visit, lines 86--95. The loop runs over the set that \<open>ec2\<close>
  names when the loop starts, and line 93 binds the name \<open>ec2\<close> anew to the class found in the
  first file; the function returns the list and the last binding of \<open>ec2\<close>.
\<close>

fun collect_classes_1 ::
  "mid_map \<Rightarrow> string list \<Rightarrow> string set \<Rightarrow> pyset list \<Rightarrow> pyset \<Rightarrow> pyset list \<times> pyset" where
  "collect_classes_1 mid_map_1 [] nested_visited equiv_classes_1 ec2 = (equiv_classes_1, ec2)"
| "collect_classes_1 mid_map_1 (m # ms) nested_visited equiv_classes_1 ec2 =
     (if m \<in> nested_visited then collect_classes_1 mid_map_1 ms nested_visited equiv_classes_1 ec2
      else (case map_of mid_map_1 m of
              None \<Rightarrow> collect_classes_1 mid_map_1 ms nested_visited equiv_classes_1 ec2
            | Some c \<Rightarrow>
                collect_classes_1 mid_map_1 ms (nested_visited \<union> set c) (equiv_classes_1 @ [c]) c))"

text \<open>The second visit, lines 78--101.\<close>

fun visit_file2 :: "mid_map \<Rightarrow> mid_map \<Rightarrow> string set \<Rightarrow> report list" where
  "visit_file2 [] mid_map_1 visited = []"
| "visit_file2 ((mid, ec2) # rest) mid_map_1 visited =
     (if mid \<in> visited then visit_file2 rest mid_map_1 visited
      else
        (case collect_classes_1 mid_map_1 ec2 {} [] ec2 of
           (equiv_classes_1, ec2') \<Rightarrow>
             (if length equiv_classes_1 \<noteq> 1 then [Alone ec2']
              else if \<not> set ec2' \<subseteq> set (hd equiv_classes_1) then [Both ec2' equiv_classes_1]
              else [])
             @ visit_file2 rest mid_map_1 (visited \<union> set ec2)))"

text \<open>Lines 29--44 for one file: its lines parsed, and the index of its ids built.\<close>

definition mid_map_of :: "(string list \<Rightarrow> pyset) \<Rightarrow> string list \<Rightarrow> mid_map" where
  "mid_map_of order f = build_mid_map order (read_equivs f) []"

text \<open>
  \<open>main\<close>: the lines of the two files in, the lines printed by the first and by the second
  visit out.
\<close>

definition main :: "(string list \<Rightarrow> pyset) \<Rightarrow> string list \<Rightarrow> string list \<Rightarrow> report list \<times> report list" where
  "main order f1 f2 =
     (let mid_map_1 = mid_map_of order f1;
          mid_map_2 = mid_map_of order f2
      in (visit_file1 mid_map_1 mid_map_2 {''0''}, visit_file2 mid_map_2 mid_map_1 {''0''}))"

subsection \<open>Notions the properties of the comparator are stated with\<close>

text \<open>The last line of a file (as parsed) on which an id occurs, if there is one.\<close>

definition last_line_with :: "string \<Rightarrow> string list list \<Rightarrow> string list option" where
  "last_line_with mid equivs =
     (let xs = filter (\<lambda>equiv_class. mid \<in> set equiv_class) equivs
      in if xs = [] then None else Some (last xs))"

text \<open>A well-formed classification file: no id occurs in two classes.\<close>

fun pairwise_disjoint :: "string list list \<Rightarrow> bool" where
  "pairwise_disjoint [] = True"
| "pairwise_disjoint (c # cs) = ((\<forall>d \<in> set cs. set c \<inter> set d = {}) \<and> pairwise_disjoint cs)"

text \<open>A class that every one of its members is mapped to by an index.\<close>

definition closed_class :: "mid_map \<Rightarrow> pyset \<Rightarrow> bool" where
  "closed_class mm ec = (ec \<noteq> [] \<and> (\<forall>m \<in> set ec. map_of mm m = Some ec))"

section \<open>Example inputs\<close>

text \<open>
  A baseline with one class file, and three mutants of it: mutants 1 and 2 compile to the same
  bytes, which differ from the baseline's; mutant 5 compiles to the baseline's bytes.
\<close>

definition example_program :: node where
  "example_program = Dir [(''pkg'', Dir [(''Foo.class'', File ''abc'')])]"

definition example_mutants :: "(string \<times> node) list" where
  "example_mutants =
     [(''1'', Dir [(''pkg'', Dir [(''Foo.class'', File ''abd'')])]),
      (''2'', Dir [(''pkg'', Dir [(''Foo.class'', File ''abd'')])]),
      (''5'', Dir [(''pkg'', Dir [(''Foo.class'', File ''abc'')])])]"

definition example_state :: tce_state where
  "example_state =
     \<lparr>hashes =
        [([''pkg/Foo.class''], [([''abd''], {''1'', ''2''}), ([''abc''], {''0'', ''5''})])],
      nonsingleton_equivalence_classes =
        [([''pkg/Foo.class''], [''abd'']), ([''pkg/Foo.class''], [''abc''])]\<rparr>"

definition example_result :: classification_result where
  "example_result =
     \<lparr>all_equivalences = [{''1'', ''2''}, {''0'', ''5''}],
      equivalent_mutants = [{''0'', ''5''}],
      redundant_mutants = [{''1'', ''2''}],
      num_total_equivalences = 2,
      num_equiv_mutants = 1,
      num_redundant_mutants = 1\<rparr>"

definition example_index_state :: tce_state where
  "example_index_state =
     \<lparr>hashes =
        [([''pkg/Foo.class''], [([''abd''], {''1'', ''2''}), ([''abc''], {''5''})])],
      nonsingleton_equivalence_classes = [([''pkg/Foo.class''], [''abd''])]\<rparr>"

text \<open>
  A mutant directory with a class file at its root, a package of two class files and an empty
  package, beside a file that is no mutant.
\<close>

definition example_packages :: "(string \<times> node) list" where
  "example_packages =
     [(''7'', Dir [(''Top.class'', File ''t''),
                   (''a'', Dir [(''Z.class'', File ''z''), (''X.class'', File ''x'')]),
                   (''empty'', Dir [])]),
      (''notes.txt'', File ''n'')]"

definition example_packages_state :: tce_state where
  "example_packages_state =
     \<lparr>hashes =
        [([''./Top.class''], [([''t''], {''7''})]),
         ([''a/X.class'', ''a/Z.class''], [([''x'', ''z''], {''7''})])],
      nonsingleton_equivalence_classes = []\<rparr>"

section \<open>Properties of \<open>tce.py\<close>\<close>

subsection \<open>The example run\<close>

lemma example_run_loops: "run_loops example_mutants example_program = Inr example_state"
  unfolding example_mutants_def example_program_def example_state_def by code_simp

lemma example_run_tce: "run_tce example_mutants example_program = Inr example_result"
  unfolding example_mutants_def example_program_def example_result_def by code_simp

subsection \<open>The summary counts\<close>


lemma run_tce_summarize:
  "run_tce mutants program = Inr r \<Longrightarrow> \<exists>st. run_loops mutants program = Inr st \<and> r = summarize st"
  by (auto simp: run_tce_def split: sum.splits)



subsection \<open>Empty inputs\<close>

text \<open>
  C8. With no mutant subdirectory, \<open>num_mutants\<close> is zero and the call
  \<open>progress(num_mutants, num_mutants, newline=True)\<close> of line 126 divides by zero; with
  mutants that hold no file, \<open>hashes\<close> stays empty, \<open>num_name_tuples\<close> is zero and the call of
  line 140 divides by zero. In both cases the run ends in \<open>ZeroDivisionError\<close> before any
  result is produced.
\<close>

theorem empty_inputs_raise:
  "run_tce [] program = Inl ZeroDivisionError
   \<and> run_tce [(''1'', Dir [])] program = Inl ZeroDivisionError
   \<and> run_tce [(''1'', Dir [(''pkg'', Dir [])]), (''2'', Dir [])] program = Inl ZeroDivisionError"
  by (simp add: run_tce_def run_loops_def index_pass_def baseline_pass_def mutant_dirs_def
      progress_def index_dir_def filenames_of_def)

subsection \<open>The insertion into a class\<close>

lemma class_at_class_obj:
  "class_at st r = (case class_obj st r of None \<Rightarrow> {} | Some s \<Rightarrow> s)"
  by (simp add: class_at_def class_obj_def get_or_def split: option.splits)

lemma class_obj_add_to_class:
  "class_obj (add_to_class k c m st) = (class_obj st)((k, c) \<mapsto> insert m (class_at st (k, c)))"
proof
  fix r :: class_ref
  obtain k' c' where r: "r = (k', c')" by (cases r)
  show "class_obj (add_to_class k c m st) r
          = ((class_obj st)((k, c) \<mapsto> insert m (class_at st (k, c)))) r"
    by (simp add: r class_obj_def add_to_class_def Let_def update_conv' class_at_def get_or_def
        split: option.splits)
qed

lemma class_at_add_to_class:
  "class_at (add_to_class k c m st) r
     = (if r = (k, c) then insert m (class_at st r) else class_at st r)"
  by (simp add: class_at_class_obj [of "add_to_class k c m st"] class_obj_add_to_class)
     (simp add: class_at_class_obj)

lemma nonsingleton_add_to_class:
  "nonsingleton_equivalence_classes (add_to_class k c m st)
     = (if card (insert m (class_at st (k, c))) = 2
        then nonsingleton_equivalence_classes st @ [(k, c)]
        else nonsingleton_equivalence_classes st)"
  by (simp add: add_to_class_def Let_def class_at_def)

lemma keys_add_to_class:
  "map fst (hashes (add_to_class k c m st))
     = (if k \<in> set (map fst (hashes st)) then map fst (hashes st)
        else map fst (hashes st) @ [k])"
  by (simp add: add_to_class_def Let_def update_keys)

lemma add_to_class_setdefault:
  "add_to_class k c m (st\<lparr>hashes := setdefault k [] (hashes st)\<rparr>) = add_to_class k c m st"
proof (cases "map_of (hashes st) k")
  case (Some d)
  then show ?thesis by (simp add: setdefault_def)
next
  case None
  then have notin: "k \<notin> fst ` set (hashes st)"
    by (simp add: map_of_eq_None_iff)
  have upd: "AList.update k v (hs @ [(k, w)]) = hs @ [(k, v)]" if "k \<notin> fst ` set hs"
    for v w and hs :: "(name_tuple \<times> (contents_tuple \<times> eq_class) list) list"
    using that by (induction hs) auto
  have upd': "AList.update k v hs = hs @ [(k, v)]" if "k \<notin> fst ` set hs"
    for v and hs :: "(name_tuple \<times> (contents_tuple \<times> eq_class) list) list"
    using that by (induction hs) auto
  from None notin show ?thesis
    by (simp add: setdefault_def add_to_class_def Let_def get_or_def upd upd' map_add_def)
qed

subsection \<open>Replaying registrations\<close>

lemma register_all_append:
  "register_all (rs @ rs') st = register_all rs' (register_all rs st)"
  by (induction rs arbitrary: st) simp_all

lemma class_at_register_all:
  "class_at (register_all rs st) r = class_at st r \<union> {m. (fst r, snd r, m) \<in> set rs}"
proof (induction rs arbitrary: st)
  case Nil
  show ?case by simp
next
  case (Cons x rs)
  obtain k c m where x: "x = (k, c, m)" by (cases x)
  show ?case
    by (auto simp: x Cons.IH class_at_add_to_class prod_eq_iff)
qed

lemma keys_register_all:
  "set (map fst (hashes (register_all rs st))) = set (map fst (hashes st)) \<union> fst ` set rs"
proof (induction rs arbitrary: st)
  case Nil
  show ?case by simp
next
  case (Cons x rs)
  show ?case
    by (simp only: register_all.simps Cons.IH keys_add_to_class) (auto split: if_splits)
qed

lemma distinct_keys_add_to_class:
  "distinct (map fst (hashes st)) \<Longrightarrow> distinct (map fst (hashes (add_to_class k c m st)))"
  by (simp add: keys_add_to_class)

lemma distinct_keys_register_all:
  "distinct (map fst (hashes st)) \<Longrightarrow> distinct (map fst (hashes (register_all rs st)))"
  by (induction rs arbitrary: st) (simp_all add: distinct_keys_add_to_class)

lemma refs_inv_initial: "refs_inv initial_state"
  by (simp add: refs_inv_def initial_state_def class_at_def get_or_def)

lemma refs_inv_add_to_class:
  assumes "refs_inv st"
  shows "refs_inv (add_to_class k c m st)"
proof -
  let ?s = "class_at st (k, c)"
  from assms have fin: "finite (class_at st r)" for r
    unfolding refs_inv_def by blast
  from assms have ns: "r \<in> set (nonsingleton_equivalence_classes st) \<longleftrightarrow> 2 \<le> card (class_at st r)" for r
    by (auto simp: refs_inv_def)
  have card: "card (insert m ?s) = card ?s \<or> card (insert m ?s) = Suc (card ?s)"
    using fin [of "(k, c)"] by (simp add: card_insert_if)
  have "r \<in> set (nonsingleton_equivalence_classes (add_to_class k c m st))
          \<longleftrightarrow> 2 \<le> card (class_at (add_to_class k c m st) r)" for r
  proof (cases "r = (k, c)")
    case True
    with card ns [of "(k, c)"] show ?thesis
      by (auto simp: nonsingleton_add_to_class class_at_add_to_class)
  next
    case False
    with ns [of r] show ?thesis
      by (auto simp: nonsingleton_add_to_class class_at_add_to_class)
  qed
  moreover have "finite (class_at (add_to_class k c m st) r)" for r
    using fin by (simp add: class_at_add_to_class)
  ultimately show ?thesis by (auto simp: refs_inv_def)
qed

lemma refs_inv_register_all:
  "refs_inv st \<Longrightarrow> refs_inv (register_all rs st)"
  by (induction rs arbitrary: st) (simp_all add: refs_inv_add_to_class)

subsection \<open>The loops as sequences of insertions\<close>

lemma progress_in_loop: "0 < n \<Longrightarrow> progress d n 5 = Inr ()"
  by (simp add: progress_def)

lemma index_dir_eq:
  "index_dir mid root (rp, dns, fns) st =
     (if fns = [] then Inr st
      else (case read_name_tuple_from_root (map (os_path_join rp) (sort fns)) root of
              Inl e \<Rightarrow> Inl e
            | Inr c \<Rightarrow> Inr (add_to_class (map (os_path_join rp) (sort fns)) c mid st)))"
  by (simp add: index_dir_def Let_def add_to_class_setdefault split: sum.splits)

lemma index_dir_registers:
  assumes "index_dir mid root w st = Inr st'"
  shows "\<exists>rs. st' = register_all rs st \<and> (\<forall>r \<in> set rs. snd (snd r) = mid)"
proof -
  obtain rp dns fns where w: "w = (rp, dns, fns)" by (cases w)
  show ?thesis
  proof (cases "fns = []")
    case True
    with assms w have "st' = register_all [] st" by (simp add: index_dir_eq)
    then show ?thesis by fastforce
  next
    case False
    with assms w obtain c where
      "st' = add_to_class (map (os_path_join rp) (sort fns)) c mid st"
      by (auto simp: index_dir_eq split: sum.splits)
    then have "st' = register_all [(map (os_path_join rp) (sort fns), c, mid)] st" by simp
    then show ?thesis by fastforce
  qed
qed

lemma index_walk_registers:
  "index_walk mid root ws st = Inr st' \<Longrightarrow>
     \<exists>rs. st' = register_all rs st \<and> (\<forall>r \<in> set rs. snd (snd r) = mid)"
proof (induction ws arbitrary: st)
  case Nil
  then have "st' = register_all [] st" by simp
  then show ?case by fastforce
next
  case (Cons w ws)
  from Cons.prems obtain st1 where s1: "index_dir mid root w st = Inr st1"
    and s2: "index_walk mid root ws st1 = Inr st'"
    by (auto split: sum.splits)
  from index_dir_registers [OF s1] obtain rs1 where
    r1: "st1 = register_all rs1 st" "\<forall>r \<in> set rs1. snd (snd r) = mid" by blast
  from Cons.IH [OF s2] obtain rs2 where
    r2: "st' = register_all rs2 st1" "\<forall>r \<in> set rs2. snd (snd r) = mid" by blast
  from r1 r2 have "st' = register_all (rs1 @ rs2) st \<and> (\<forall>r \<in> set (rs1 @ rs2). snd (snd r) = mid)"
    by (auto simp: register_all_append)
  then show ?case by blast
qed

lemma index_mutants_registers:
  "index_mutants ms i n st = Inr st' \<Longrightarrow>
     \<exists>rs. st' = register_all rs st \<and> (\<forall>r \<in> set rs. snd (snd r) \<in> fst ` set ms)"
proof (induction ms arbitrary: i st)
  case Nil
  then have "st' = register_all [] st" by simp
  then show ?case by fastforce
next
  case (Cons m ms)
  from Cons.prems obtain st1 where s1: "index_walk (fst m) (snd m) (os_walk [] (snd m)) st = Inr st1"
    and s2: "index_mutants ms (i + 1) n st1 = Inr st'"
    by (auto split: sum.splits)
  from index_walk_registers [OF s1] obtain rs1 where
    r1: "st1 = register_all rs1 st" "\<forall>r \<in> set rs1. snd (snd r) = fst m" by blast
  from Cons.IH [OF s2] obtain rs2 where
    r2: "st' = register_all rs2 st1" "\<forall>r \<in> set rs2. snd (snd r) \<in> fst ` set ms" by blast
  from r1 r2 have "st' = register_all (rs1 @ rs2) st
      \<and> (\<forall>r \<in> set (rs1 @ rs2). snd (snd r) \<in> fst ` set (m # ms))"
    by (auto simp: register_all_append)
  then show ?case by blast
qed

lemma index_pass_registers:
  assumes "index_pass mutants = Inr st"
  shows "\<exists>rs. st = register_all rs initial_state
           \<and> (\<forall>r \<in> set rs. snd (snd r) \<in> fst ` set (mutant_dirs mutants))"
  using assms index_mutants_registers [of "mutant_dirs mutants" 0 "length (mutant_dirs mutants)"]
  by (simp add: index_pass_def Let_def initial_state_def)

lemma baseline_loop_registers:
  "baseline_loop program nts i n st = Inr st' \<Longrightarrow>
     st' = register_all (baseline_registrations program nts) st
     \<and> (\<forall>nt \<in> set nts. \<exists>c. read_name_tuple_from_root nt program = Inr c)"
proof (induction nts arbitrary: i st)
  case Nil
  then show ?case by (simp add: baseline_registrations_def)
next
  case (Cons nt nts)
  from Cons.prems obtain c where c: "read_name_tuple_from_root nt program = Inr c"
    and s2: "baseline_loop program nts (i + 1) n (add_to_class nt c ''0'' st) = Inr st'"
    by (auto simp: Let_def split: sum.splits)
  from Cons.IH [OF s2] c show ?case
    by (simp add: baseline_registrations_def)
qed

lemma baseline_pass_registers:
  assumes "baseline_pass program st = Inr st'"
  shows "st' = register_all (baseline_registrations program (map fst (hashes st))) st"
    and "\<forall>nt \<in> set (map fst (hashes st)). \<exists>c. read_name_tuple_from_root nt program = Inr c"
  using baseline_loop_registers [OF assms [unfolded baseline_pass_def]] by blast+

lemma run_loops_passes:
  assumes "run_loops mutants program = Inr st"
  shows "\<exists>st1. index_pass mutants = Inr st1 \<and> baseline_pass program st1 = Inr st
           \<and> mutant_dirs mutants \<noteq> [] \<and> hashes st1 \<noteq> []"
  using assms
  by (auto simp: run_loops_def Let_def progress_def split: sum.splits if_splits)

lemma run_loops_refs_inv:
  assumes "run_loops mutants program = Inr st"
  shows "refs_inv st"
proof -
  from run_loops_passes [OF assms] obtain st1 where
    p1: "index_pass mutants = Inr st1" and p2: "baseline_pass program st1 = Inr st" by blast
  from index_pass_registers [OF p1] obtain rs where "st1 = register_all rs initial_state" by blast
  then have "refs_inv st1" by (simp add: refs_inv_register_all refs_inv_initial)
  with baseline_pass_registers(1) [OF p2] show ?thesis
    by (simp add: refs_inv_register_all)
qed

subsection \<open>Equivalent and redundant classes\<close>

lemma interesting_classes:
  assumes "refs_inv st"
  shows "set (map (class_at st) (nonsingleton_equivalence_classes st))
           = {s. \<exists>ref. class_obj st ref = Some s \<and> 2 \<le> card s}"
proof -
  from assms have ns: "set (nonsingleton_equivalence_classes st) = {r. 2 \<le> card (class_at st r)}"
    by (simp add: refs_inv_def)
  have "class_at st ` {r. 2 \<le> card (class_at st r)}
          = {s. \<exists>ref. class_obj st ref = Some s \<and> 2 \<le> card s}" (is "?L = ?R")
  proof
    show "?L \<subseteq> ?R"
    proof
      fix s assume "s \<in> ?L"
      then obtain ref where ref: "s = class_at st ref" "2 \<le> card (class_at st ref)" by auto
      then have "class_at st ref \<noteq> {}" by auto
      then have "class_obj st ref = Some s"
        by (auto simp: ref(1) class_at_class_obj split: option.splits)
      with ref(2) show "s \<in> ?R"
        by (intro CollectI exI [of _ ref]) (simp add: ref(1))
    qed
    show "?R \<subseteq> ?L"
    proof
      fix s assume "s \<in> ?R"
      then obtain ref where ref: "class_obj st ref = Some s" "2 \<le> card s" by auto
      then have "class_at st ref = s" by (simp add: class_at_class_obj)
      with ref(2) show "s \<in> ?L" by force
    qed
  qed
  with ns show ?thesis by simp
qed

text \<open>
  C3. In the result of a run, every class of the equivalent list holds \<open>0\<close>, no class of the
  redundant list does, and the two lists together hold exactly the classes of the index with
  two members or more (which are the classes of the list of all equivalences).
\<close>

theorem equivalent_and_redundant_classes:
  assumes "run_tce mutants program = Inr r"
  shows "(\<forall>x \<in> set (equivalent_mutants r). ''0'' \<in> x)
       \<and> (\<forall>x \<in> set (redundant_mutants r). ''0'' \<notin> x)
       \<and> set (equivalent_mutants r) \<union> set (redundant_mutants r) = set (all_equivalences r)
       \<and> (\<exists>st. run_loops mutants program = Inr st
             \<and> set (equivalent_mutants r) \<union> set (redundant_mutants r)
                 = {s. \<exists>ref. class_obj st ref = Some s \<and> 2 \<le> card s})"
proof -
  from run_tce_summarize [OF assms] obtain st where
    run: "run_loops mutants program = Inr st" and r: "r = summarize st" by blast
  have split: "set (equivalent_mutants r) \<union> set (redundant_mutants r) = set (all_equivalences r)"
    by (auto simp: r summarize_def Let_def)
  have "set (all_equivalences r) = {s. \<exists>ref. class_obj st ref = Some s \<and> 2 \<le> card s}"
    using interesting_classes [OF run_loops_refs_inv [OF run]]
    by (simp add: r summarize_def Let_def)
  with split run have "\<exists>st. run_loops mutants program = Inr st
             \<and> set (equivalent_mutants r) \<union> set (redundant_mutants r)
                 = {s. \<exists>ref. class_obj st ref = Some s \<and> 2 \<le> card s}"
    by auto
  moreover have "\<forall>x \<in> set (equivalent_mutants r). ''0'' \<in> x"
    by (simp add: r summarize_def Let_def)
  moreover have "\<forall>x \<in> set (redundant_mutants r). ''0'' \<notin> x"
    by (simp add: r summarize_def Let_def)
  ultimately show ?thesis using split by blast
qed

theorem equivalent_and_redundant_classes_witness:
  "run_tce example_mutants example_program = Inr example_result
   \<and> equivalent_mutants example_result = [{''0'', ''5''}]
   \<and> redundant_mutants example_result = [{''1'', ''2''}]
   \<and> set (equivalent_mutants example_result) \<union> set (redundant_mutants example_result)
       = set (all_equivalences example_result)"
  using equivalent_and_redundant_classes [OF example_run_tce] example_run_tce
  by (simp add: example_result_def)

subsection \<open>The baseline pass\<close>

lemma baseline_registrations_iff:
  "(nt, c, m) \<in> set (baseline_registrations program nts)
     \<longleftrightarrow> nt \<in> set nts \<and> c = projr (read_name_tuple_from_root nt program) \<and> m = ''0''"
  by (auto simp: baseline_registrations_def)

lemma class_at_initial: "class_at initial_state r = {}"
  by (simp add: initial_state_def class_at_def get_or_def)

lemma class_obj_nonempty:
  "class_at st r \<noteq> {} \<Longrightarrow> class_obj st r = Some (class_at st r)"
  by (auto simp: class_at_class_obj split: option.splits)

text \<open>
  C2. After the baseline pass, for every key of the index the baseline's files at that key
  were read, and \<open>0\<close> is a member of the class of that key and of that content, and of no other
  class of the key; the other members of the classes are those of the index before the pass,
  and the class is new when the index had none for that content. The id \<open>0\<close> is reserved for
  the baseline: no mutant directory is named \<open>0\<close>.
\<close>

theorem baseline_in_matching_class:
  assumes "index_pass mutants = Inr st1"
    and "baseline_pass program st1 = Inr st"
    and "''0'' \<notin> fst ` set (mutant_dirs mutants)"
    and "nt \<in> set (map fst (hashes st))"
  shows "\<exists>c0. read_name_tuple_from_root nt program = Inr c0
           \<and> (\<forall>c. ''0'' \<in> class_at st (nt, c) \<longleftrightarrow> c = c0)
           \<and> class_at st (nt, c0) = insert ''0'' (class_at st1 (nt, c0))
           \<and> (\<forall>c. c \<noteq> c0 \<longrightarrow> class_at st (nt, c) = class_at st1 (nt, c))
           \<and> (class_obj st1 (nt, c0) = None \<longrightarrow> class_obj st (nt, c0) = Some {''0''})
           \<and> nt \<in> set (map fst (hashes st1))"
proof -
  let ?keys = "map fst (hashes st1)"
  from baseline_pass_registers [OF assms(2)]
  have st: "st = register_all (baseline_registrations program ?keys) st1"
    and reads: "\<forall>nt \<in> set ?keys. \<exists>c. read_name_tuple_from_root nt program = Inr c"
    by blast+
  have "fst ` set (baseline_registrations program ?keys) = set ?keys"
    by (force simp: baseline_registrations_def image_iff)
  with st have "set (map fst (hashes st)) = set ?keys"
    by (simp only: keys_register_all) auto
  with assms(4) have key: "nt \<in> set ?keys" by simp
  with reads obtain c0 where c0: "read_name_tuple_from_root nt program = Inr c0" by blast
  from index_pass_registers [OF assms(1)] obtain rs where
    st1: "st1 = register_all rs initial_state"
    and ids: "\<forall>r \<in> set rs. snd (snd r) \<in> fst ` set (mutant_dirs mutants)" by blast
  have no0: "''0'' \<notin> class_at st1 ref" for ref
  proof
    assume "''0'' \<in> class_at st1 ref"
    then have "(fst ref, snd ref, ''0'') \<in> set rs"
      by (simp add: st1 class_at_register_all class_at_initial)
    from bspec [OF ids this] have "''0'' \<in> fst ` set (mutant_dirs mutants)" by simp
    with assms(3) show False by simp
  qed
  have cls: "class_at st (nt, c) = (if c = c0 then insert ''0'' (class_at st1 (nt, c))
                                    else class_at st1 (nt, c))" for c
    using key c0 by (auto simp: st class_at_register_all baseline_registrations_iff)
  have "class_obj st (nt, c0) = Some {''0''}" if "class_obj st1 (nt, c0) = None"
  proof -
    from that have "class_at st1 (nt, c0) = {}" by (simp add: class_at_class_obj)
    with cls [of c0] have "class_at st (nt, c0) = {''0''}" by simp
    with class_obj_nonempty [of st "(nt, c0)"] show ?thesis by simp
  qed
  with c0 cls no0 key show ?thesis by auto
qed

lemma example_index_pass: "index_pass example_mutants = Inr example_index_state"
  unfolding example_mutants_def example_index_state_def by code_simp

lemma example_baseline_pass: "baseline_pass example_program example_index_state = Inr example_state"
  unfolding example_program_def example_index_state_def example_state_def by code_simp

theorem baseline_in_matching_class_witness:
  "index_pass example_mutants = Inr example_index_state
   \<and> baseline_pass example_program example_index_state = Inr example_state
   \<and> ''0'' \<notin> fst ` set (mutant_dirs example_mutants)
   \<and> [''pkg/Foo.class''] \<in> set (map fst (hashes example_state))
   \<and> read_name_tuple_from_root [''pkg/Foo.class''] example_program = Inr [''abc'']
   \<and> ''0'' \<in> class_at example_state ([''pkg/Foo.class''], [''abc''])
   \<and> ''0'' \<notin> class_at example_state ([''pkg/Foo.class''], [''abd''])"
proof -
  have no0: "''0'' \<notin> fst ` set (mutant_dirs example_mutants)"
    by (simp add: example_mutants_def mutant_dirs_def)
  have key: "[''pkg/Foo.class''] \<in> set (map fst (hashes example_state))"
    by (simp add: example_state_def)
  have rd: "read_name_tuple_from_root [''pkg/Foo.class''] example_program = Inr [''abc'']"
    unfolding example_program_def by code_simp
  from baseline_in_matching_class [OF example_index_pass example_baseline_pass no0 key]
  obtain c0 where c0: "read_name_tuple_from_root [''pkg/Foo.class''] example_program = Inr c0"
    and iff: "\<And>c. ''0'' \<in> class_at example_state ([''pkg/Foo.class''], c) \<longleftrightarrow> c = c0"
    by blast
  from c0 rd have "c0 = [''abc'']" by (simp only: sum.inject)
  with iff [of "[''abc'']"] iff [of "[''abd'']"]
  have "''0'' \<in> class_at example_state ([''pkg/Foo.class''], [''abc''])
      \<and> ''0'' \<notin> class_at example_state ([''pkg/Foo.class''], [''abd''])"
    by simp
  with example_index_pass example_baseline_pass no0 key rd show ?thesis by simp
qed

subsection \<open>Paths and the file system\<close>

lemma os_walk_dir_levels:
  "os_walk comps n
     = map (\<lambda>l. (relpath (fst l), dirnames_of (snd l), filenames_of (snd l))) (dir_levels comps n)"
  "os_walk_children comps es
     = map (\<lambda>l. (relpath (fst l), dirnames_of (snd l), filenames_of (snd l)))
         (dir_levels_children comps es)"
  by (induct comps n and comps es rule: os_walk_os_walk_children.induct) simp_all

lemma filenames_of_files_of: "filenames_of es = map fst (files_of es)"
  by (induction es rule: files_of.induct) (simp_all add: filenames_of_def)

lemma split_path_nonempty: "split_path s \<noteq> []"
  by (induction s) (auto split: list.splits)

lemma split_path_no_sep: "CHR ''/'' \<notin> set s \<Longrightarrow> split_path s = [s]"
  by (induction s) auto

lemma split_path_append: "split_path (a @ CHR ''/'' # b) = split_path a @ split_path b"
proof (induction a)
  case Nil
  show ?case by simp
next
  case (Cons x a)
  obtain w ws where "split_path a = w # ws"
    using split_path_nonempty [of a] by (cases "split_path a") auto
  with Cons show ?case by simp
qed

lemma valid_name_simps:
  "valid_name n \<Longrightarrow> n \<noteq> []"
  "valid_name n \<Longrightarrow> CHR ''/'' \<notin> set n"
  "valid_name n \<Longrightarrow> n \<noteq> ''.''"
  by (simp_all add: valid_name_def)

lemma valid_name_ends:
  assumes "valid_name n"
  shows "hd n \<noteq> CHR ''/''" and "last n \<noteq> CHR ''/''"
proof -
  from assms have ne: "n \<noteq> []" and sep: "CHR ''/'' \<notin> set n"
    by (simp_all add: valid_name_def)
  from ne have "hd n \<in> set n" and "last n \<in> set n" by simp_all
  with sep show "hd n \<noteq> CHR ''/''" and "last n \<noteq> CHR ''/''" by auto
qed

lemma relpath_ends:
  "list_all valid_name cs \<Longrightarrow>
     relpath cs \<noteq> [] \<and> hd (relpath cs) \<noteq> CHR ''/'' \<and> last (relpath cs) \<noteq> CHR ''/''"
proof (induction cs rule: relpath.induct)
  case 1
  show ?case by simp
next
  case (2 c)
  then show ?case by (simp add: valid_name_ends valid_name_simps)
next
  case (3 c d ds)
  then have "valid_name c" and rest: "relpath (d # ds) \<noteq> []"
    "last (relpath (d # ds)) \<noteq> CHR ''/''" by simp_all
  then show ?case
    using valid_name_ends(1) [of c] valid_name_simps(1) [of c] by simp
qed

lemma split_path_relpath:
  "list_all valid_name cs \<Longrightarrow> split_path (relpath cs) = (if cs = [] then [''.''] else cs)"
proof (induction cs rule: relpath.induct)
  case 1
  show ?case by simp
next
  case (2 c)
  then show ?case by (simp add: split_path_no_sep valid_name_simps)
next
  case (3 c d ds)
  then have c: "CHR ''/'' \<notin> set c" and rest: "split_path (relpath (d # ds)) = d # ds"
    by (simp_all add: valid_name_simps)
  have "split_path (relpath (c # d # ds)) = split_path c @ split_path (relpath (d # ds))"
    using split_path_append [of c "relpath (d # ds)"] by simp
  with c rest show ?case by (simp add: split_path_no_sep)
qed

lemma os_path_join_relpath:
  assumes "list_all valid_name cs" and "valid_name f"
  shows "os_path_join (relpath cs) f = relpath cs @ ''/'' @ f"
  using relpath_ends [OF assms(1)] valid_name_ends(1) [OF assms(2)] valid_name_simps(1) [OF assms(2)]
  by (simp add: os_path_join_def)

lemma split_path_artifact:
  assumes "list_all valid_name cs" and "valid_name f"
  shows "split_path (relpath cs @ ''/'' @ f) = (if cs = [] then [''.''] else cs) @ [f]"
proof -
  have "split_path (relpath cs @ ''/'' @ f) = split_path (relpath cs) @ split_path f"
    using split_path_append [of "relpath cs" f] by simp
  with assms show ?thesis
    by (simp add: split_path_relpath split_path_no_sep valid_name_simps)
qed

lemma resolve_append:
  "resolve n (xs @ ys) = (case resolve n xs of None \<Rightarrow> None | Some m \<Rightarrow> resolve m ys)"
proof (induction n xs rule: resolve.induct)
  case (1 n)
  show ?case by simp
next
  case (2 b c cs)
  show ?case by simp
next
  case (3 es c cs)
  then show ?case by (simp split: option.splits)
qed

lemma wf_entries_iff:
  "wf_entries es \<longleftrightarrow>
     distinct (map fst es) \<and> (\<forall>e \<in> set es. valid_name (fst e) \<and> wf_node (snd e))"
  by (induction es) auto

lemma files_of_iff: "(f, b) \<in> set (files_of es) \<longleftrightarrow> (f, File b) \<in> set es"
  by (induction es rule: files_of.induct) auto

lemma wf_entries_file:
  assumes "wf_entries es" and "(f, b) \<in> set (files_of es)"
  shows "map_of es f = Some (File b)" and "valid_name f"
proof -
  from assms(2) have mem: "(f, File b) \<in> set es" by (simp add: files_of_iff)
  with assms(1) show "map_of es f = Some (File b)"
    by (simp add: wf_entries_iff)
  from assms(1) mem show "valid_name f"
    by (force simp: wf_entries_iff)
qed

lemma resolve_child:
  assumes "valid_name c" and "map_of es c = Some m"
  shows "resolve (Dir es) (c # cs) = resolve m cs"
  using assms by (simp add: valid_name_def)

text \<open>
  Where a directory level lies: its component list extends the list the walk started with,
  by valid names that lead from the node walked to the directory of the level.
\<close>

lemma dir_levels_resolve:
  "wf_node n \<Longrightarrow> (cs, es) \<in> set (dir_levels pre n) \<Longrightarrow>
     \<exists>suf. cs = pre @ suf \<and> list_all valid_name suf \<and> resolve n suf = Some (Dir es)
           \<and> wf_entries es"
  "wf_entries es0 \<Longrightarrow> (cs, es) \<in> set (dir_levels_children pre es0) \<Longrightarrow>
     \<exists>suf. cs = pre @ suf \<and> suf \<noteq> [] \<and> hd suf \<in> fst ` set es0 \<and> list_all valid_name suf
           \<and> resolve (Dir es0) suf = Some (Dir es) \<and> wf_entries es"
proof (induction pre n and pre es0 arbitrary: cs es and cs es
    rule: dir_levels_dir_levels_children.induct)
  case (1 comps b)
  then show ?case by simp
next
  case (2 comps es1)
  from "2.prems"(2) consider "(cs, es) = (comps, es1)"
    | "(cs, es) \<in> set (dir_levels_children comps es1)" by auto
  then show ?case
  proof cases
    case 1
    with "2.prems"(1) have "cs = comps @ [] \<and> list_all valid_name [] \<and>
      resolve (Dir es1) [] = Some (Dir es) \<and> wf_entries es" by simp
    then show ?thesis by blast
  next
    case 2
    from "2.prems"(1) have "wf_entries es1" by simp
    from "2.IH" [OF this 2] show ?thesis by blast
  qed
next
  case (3 comps)
  then show ?case by simp
next
  case (4 comps e es1)
  from "4.prems"(1) have ve: "valid_name (fst e)" and fresh: "fst e \<notin> fst ` set es1"
    and wfe: "wf_node (snd e)" and wfr: "wf_entries es1" by simp_all
  from "4.prems"(2) consider
    (here) "is_Dir (snd e)" "(cs, es) \<in> set (dir_levels (comps @ [fst e]) (snd e))"
    | (later) "(cs, es) \<in> set (dir_levels_children comps es1)"
    by (auto split: if_splits)
  then show ?case
  proof cases
    case here
    from "4.IH"(1) [OF here(1) wfe here(2)] obtain suf where
      suf: "cs = (comps @ [fst e]) @ suf" "list_all valid_name suf"
        "resolve (snd e) suf = Some (Dir es)" "wf_entries es" by blast
    have "map_of (e # es1) (fst e) = Some (snd e)" by simp
    from resolve_child [OF ve this] suf(3)
    have "resolve (Dir (e # es1)) (fst e # suf) = Some (Dir es)" by simp
    with suf ve have "cs = comps @ (fst e # suf) \<and> fst e # suf \<noteq> []
        \<and> hd (fst e # suf) \<in> fst ` set (e # es1) \<and> list_all valid_name (fst e # suf)
        \<and> resolve (Dir (e # es1)) (fst e # suf) = Some (Dir es) \<and> wf_entries es"
      by simp
    then show ?thesis by blast
  next
    case later
    from "4.IH"(2) [OF wfr later] obtain suf where
      suf: "cs = comps @ suf" "suf \<noteq> []" "hd suf \<in> fst ` set es1" "list_all valid_name suf"
        "resolve (Dir es1) suf = Some (Dir es)" "wf_entries es" by blast
    from suf(2) obtain c rest where cr: "suf = c # rest" by (cases suf) auto
    with suf(3) have "c \<in> fst ` set es1" by simp
    have "c \<noteq> fst e"
    proof
      assume "c = fst e"
      with \<open>c \<in> fst ` set es1\<close> fresh show False by simp
    qed
    moreover from cr suf(4) have "c \<noteq> ''.''" "c \<noteq> []" by (simp_all add: valid_name_def)
    ultimately have "resolve (Dir (e # es1)) suf = resolve (Dir es1) suf"
      by (simp add: cr)
    with suf show ?thesis by auto
  qed
qed

lemma dir_levels_root:
  assumes "wf_node root" and "(cs, es) \<in> set (dir_levels [] root)"
  shows "list_all valid_name cs" and "resolve root cs = Some (Dir es)" and "wf_entries es"
  using dir_levels_resolve(1) [OF assms] by auto

text \<open>Reading a file that the walk has listed gives the bytes of the file.\<close>

lemma open_rb_listed:
  assumes "wf_node root" and "(cs, es) \<in> set (dir_levels [] root)"
    and "(f, b) \<in> set (files_of es)"
  shows "open_rb root (relpath cs @ ''/'' @ f) = Inr b"
proof -
  note lv = dir_levels_root [OF assms(1,2)]
  note fl = wf_entries_file [OF lv(3) assms(3)]
  have rf: "resolve (Dir es) [f] = Some (File b)"
    using resolve_child [OF fl(2) fl(1), of "[]"] by simp
  have "resolve root ((if cs = [] then [''.''] else cs) @ [f]) = Some (File b)"
  proof (cases "cs = []")
    case True
    with lv(2) have "root = Dir es" by simp
    with True rf show ?thesis by simp
  next
    case False
    with lv(2) rf show ?thesis by (simp add: resolve_append)
  qed
  then have "resolve root (split_path (relpath cs @ ''/'' @ f)) = Some (File b)"
    by (simp only: split_path_artifact [OF lv(1) fl(2)])
  moreover have "hd (relpath cs @ ''/'' @ f) \<noteq> CHR ''/''"
    using relpath_ends [OF lv(1)] by simp
  ultimately show ?thesis by (simp add: open_rb_def)
qed

lemma read_name_tuple_from_root_map:
  "\<forall>x \<in> set xs. open_rb root (fst x) = Inr (snd x) \<Longrightarrow>
     read_name_tuple_from_root (map fst xs) root = Inr (map snd xs)"
  by (induction xs) simp_all

subsection \<open>Sorting the names\<close>

lemma insort_key_map:
  "insort_key f (g x) (map g ys) = map g (insort_key (\<lambda>a. f (g a)) x ys)"
  by (induction ys) simp_all

lemma sort_key_map: "sort_key f (map g xs) = map g (sort_key (\<lambda>a. f (g a)) xs)"
  by (induction xs) (simp_all add: insort_key_map)

lemma sort_map_fst: "sort (map f xs) = map f (sort_key f xs)"
  using sort_key_map [of "\<lambda>x. x" f xs] by simp

lemma insort_key_mono:
  assumes "\<And>x y. p x \<le> p y \<longleftrightarrow> x \<le> y"
  shows "insort_key (\<lambda>a. p (f a)) x ys = insort_key f x ys"
  by (induction ys) (simp_all add: assms)

lemma sort_key_mono:
  assumes "\<And>x y. p x \<le> p y \<longleftrightarrow> x \<le> y"
  shows "sort_key (\<lambda>a. p (f a)) xs = sort_key f xs"
  by (induction xs) (simp_all add: insort_key_mono [of p, OF assms])

lemma prefix_le_iff: "p @ x \<le> p @ y \<longleftrightarrow> x \<le> y" for p x y :: string
  by (induction p) simp_all

text \<open>
  The key and the content of a level, from the files of the level sorted by their names.
\<close>

lemma artifacts_sorted:
  "sort_key fst (artifacts l)
     = map (\<lambda>fb. (relpath (fst l) @ ''/'' @ fst fb, snd fb)) (sort_key fst (files_of (snd l)))"
proof -
  let ?p = "\<lambda>f :: string. relpath (fst l) @ ''/'' @ f"
  let ?g = "\<lambda>fb :: string \<times> bytes. (?p (fst fb), snd fb)"
  have "?p x \<le> ?p y \<longleftrightarrow> x \<le> y" for x y
    using prefix_le_iff [of "relpath (fst l) @ ''/''" x y] by simp
  then have "sort_key (\<lambda>a. ?p (fst a)) xs = sort_key fst xs" for xs :: "(string \<times> bytes) list"
    by (rule sort_key_mono)
  then show ?thesis
    by (simp add: artifacts_def sort_key_map)
qed

lemma artifact_set_key_eq:
  "artifact_set_key l
     = map (\<lambda>f. relpath (fst l) @ ''/'' @ f) (sort (filenames_of (snd l)))"
  by (simp add: artifact_set_key_def sort_map_fst artifacts_sorted filenames_of_files_of
      comp_def)

lemma content_key_eq: "content_key l = map snd (sort_key fst (files_of (snd l)))"
  by (simp add: content_key_def artifacts_sorted comp_def)

subsection \<open>The indexing loop registers the levels of the mutants\<close>

lemma read_level:
  assumes "wf_node root" and "l \<in> set (dir_levels [] root)"
  shows "read_name_tuple_from_root (artifact_set_key l) root = Inr (content_key l)"
proof -
  obtain cs es where l: "l = (cs, es)" by (cases l)
  let ?xs = "map (\<lambda>fb. (relpath cs @ ''/'' @ fst fb, snd fb)) (sort_key fst (files_of es))"
  have "open_rb root (fst x) = Inr (snd x)" if "x \<in> set ?xs" for x
  proof -
    from that obtain f b where "(f, b) \<in> set (files_of es)" and "x = (relpath cs @ ''/'' @ f, b)"
      by auto
    with open_rb_listed [OF assms(1) assms(2) [unfolded l]] show ?thesis by simp
  qed
  then have "read_name_tuple_from_root (map fst ?xs) root = Inr (map snd ?xs)"
    by (intro read_name_tuple_from_root_map) simp
  moreover have "map fst ?xs = artifact_set_key l"
    by (simp add: l artifact_set_key_eq filenames_of_files_of sort_map_fst comp_def)
  moreover have "map snd ?xs = content_key l"
    by (simp add: l content_key_eq comp_def)
  ultimately show ?thesis by simp
qed

lemma name_tuple_level:
  assumes "wf_node root" and "l \<in> set (dir_levels [] root)"
  shows "map (os_path_join (relpath (fst l))) (sort (filenames_of (snd l))) = artifact_set_key l"
proof -
  obtain cs es where l: "l = (cs, es)" by (cases l)
  note lv = dir_levels_root [OF assms(1) assms(2) [unfolded l]]
  have "os_path_join (relpath cs) f = relpath cs @ ''/'' @ f"
    if "f \<in> set (sort (filenames_of es))" for f
  proof -
    from that obtain b where "(f, b) \<in> set (files_of es)"
      by (auto simp: filenames_of_files_of)
    from wf_entries_file(2) [OF lv(3) this] lv(1) show ?thesis
      by (rule os_path_join_relpath [rotated])
  qed
  then show ?thesis
    by (simp add: l artifact_set_key_eq cong: map_cong)
qed

lemma index_dir_level:
  assumes "wf_node root" and "l \<in> set (dir_levels [] root)"
  shows "index_dir mid root (relpath (fst l), dirnames_of (snd l), filenames_of (snd l)) st
           = Inr (if files_of (snd l) = [] then st
                  else add_to_class (artifact_set_key l) (content_key l) mid st)"
proof -
  have "filenames_of (snd l) = [] \<longleftrightarrow> files_of (snd l) = []"
    by (simp add: filenames_of_files_of)
  then show ?thesis
    by (simp add: index_dir_eq name_tuple_level [OF assms] read_level [OF assms])
qed

lemma index_walk_levels:
  assumes "wf_node root"
  shows "set ls \<subseteq> set (dir_levels [] root) \<Longrightarrow>
     index_walk mid root
         (map (\<lambda>l. (relpath (fst l), dirnames_of (snd l), filenames_of (snd l))) ls) st
       = Inr (register_all
               (map (\<lambda>l. (artifact_set_key l, content_key l, mid))
                  (filter (\<lambda>l. files_of (snd l) \<noteq> []) ls)) st)"
proof (induction ls arbitrary: st)
  case Nil
  show ?case by simp
next
  case (Cons l ls)
  from Cons.prems have "l \<in> set (dir_levels [] root)" and "set ls \<subseteq> set (dir_levels [] root)"
    by simp_all
  with Cons.IH index_dir_level [OF assms, of l mid] show ?case by simp
qed

lemma index_walk_registrations:
  assumes "wf_node root"
  shows "index_walk mid root (os_walk [] root) st = Inr (register_all (registrations_of mid root) st)"
  using index_walk_levels [OF assms, of "dir_levels [] root" mid st]
  by (simp add: os_walk_dir_levels registrations_of_def)

lemma index_mutants_registrations:
  "\<forall>m \<in> set ms. wf_node (snd m) \<Longrightarrow> ms = [] \<or> 0 < n \<Longrightarrow>
     index_mutants ms i n st
       = Inr (register_all (concat (map (\<lambda>m. registrations_of (fst m) (snd m)) ms)) st)"
proof (induction ms arbitrary: i st)
  case Nil
  show ?case by simp
next
  case (Cons m ms)
  from Cons.prems have n: "0 < n" and wf: "wf_node (snd m)" by simp_all
  from Cons.prems n have "index_mutants ms (i + 1) n st'
       = Inr (register_all (concat (map (\<lambda>m. registrations_of (fst m) (snd m)) ms)) st')" for st'
    by (intro Cons.IH) simp_all
  with n wf show ?case
    by (simp add: index_walk_registrations progress_in_loop register_all_append)
qed

lemma wf_mutant_dirs:
  assumes "wf_node (Dir mutants)"
  shows "\<forall>m \<in> set (mutant_dirs mutants). wf_node (snd m)"
    and "distinct (map fst (mutant_dirs mutants))"
proof -
  from assms have wf: "distinct (map fst mutants)"
    "\<forall>e \<in> set mutants. valid_name (fst e) \<and> wf_node (snd e)"
    by (simp_all add: wf_entries_iff)
  from wf(2) show "\<forall>m \<in> set (mutant_dirs mutants). wf_node (snd m)"
    by (simp add: mutant_dirs_def)
  from wf(1) show "distinct (map fst (mutant_dirs mutants))"
    unfolding mutant_dirs_def by (rule distinct_map_filter)
qed

lemma index_pass_registrations:
  assumes "wf_node (Dir mutants)"
  shows "index_pass mutants = Inr (register_all (registrations mutants) initial_state)"
proof -
  have "mutant_dirs mutants = [] \<or> 0 < length (mutant_dirs mutants)" by auto
  from index_mutants_registrations [OF wf_mutant_dirs(1) [OF assms] this]
  show ?thesis
    by (simp add: index_pass_def Let_def registrations_def initial_state_def)
qed

subsection \<open>A mutant registers under each key once\<close>

lemma dir_levels_distinct:
  "wf_node n \<Longrightarrow> distinct (map fst (dir_levels pre n))"
  "wf_entries es0 \<Longrightarrow> distinct (map fst (dir_levels_children pre es0))"
proof (induction pre n and pre es0 rule: dir_levels_dir_levels_children.induct)
  case (1 comps b)
  show ?case by simp
next
  case (2 comps es1)
  then have wf: "wf_entries es1" by simp
  have "comps \<notin> fst ` set (dir_levels_children comps es1)"
  proof
    assume "comps \<in> fst ` set (dir_levels_children comps es1)"
    then obtain es where "(comps, es) \<in> set (dir_levels_children comps es1)" by auto
    from dir_levels_resolve(2) [OF wf this] show False by auto
  qed
  with "2.IH" [OF wf] show ?case by simp
next
  case (3 comps)
  show ?case by simp
next
  case (4 comps e es1)
  from "4.prems" have fresh: "fst e \<notin> fst ` set es1"
    and wfe: "wf_node (snd e)" and wfr: "wf_entries es1" by simp_all
  have later: "distinct (map fst (dir_levels_children comps es1))"
    by (rule "4.IH"(2) [OF wfr])
  show ?case
  proof (cases "is_Dir (snd e)")
    case False
    with later show ?thesis by simp
  next
    case True
    have here: "distinct (map fst (dir_levels (comps @ [fst e]) (snd e)))"
      by (rule "4.IH"(1) [OF True wfe])
    have "cs \<noteq> cs'" if "(cs, es) \<in> set (dir_levels (comps @ [fst e]) (snd e))"
      and "(cs', es') \<in> set (dir_levels_children comps es1)" for cs es cs' es'
    proof -
      from dir_levels_resolve(1) [OF wfe that(1)] obtain suf where
        s1: "cs = comps @ fst e # suf" by auto
      from dir_levels_resolve(2) [OF wfr that(2)] obtain suf' where
        s2: "cs' = comps @ suf'" "suf' \<noteq> []" "hd suf' \<in> fst ` set es1" by blast
      have "hd suf' \<noteq> fst e"
      proof
        assume "hd suf' = fst e"
        with s2(3) have "fst e \<in> fst ` set es1" by simp
        with fresh show False by simp
      qed
      then have "suf' \<noteq> fst e # suf" by auto
      with s1 s2(1) show ?thesis by simp
    qed
    then have "fst ` set (dir_levels (comps @ [fst e]) (snd e))
                 \<inter> fst ` set (dir_levels_children comps es1) = {}"
      by fastforce
    with True here later show ?thesis by simp
  qed
qed

lemma key_comps:
  assumes "list_all valid_name cs" and "wf_entries es" and "files_of es \<noteq> []"
  shows "butlast (split_path (hd (artifact_set_key (cs, es)))) = (if cs = [] then [''.''] else cs)"
proof -
  let ?k = "artifact_set_key (cs, es)"
  have set_k: "set ?k = (\<lambda>f. relpath cs @ ''/'' @ f) ` fst ` set (files_of es)"
    by (simp add: artifact_set_key_eq filenames_of_files_of)
  have "length ?k = length (files_of es)"
    by (simp add: artifact_set_key_eq filenames_of_files_of)
  with assms(3) have "?k \<noteq> []" by auto
  then have "hd ?k \<in> set ?k" by simp
  with set_k obtain f b where fb: "(f, b) \<in> set (files_of es)" and hd: "hd ?k = relpath cs @ ''/'' @ f"
    by auto
  from wf_entries_file(2) [OF assms(2) fb] have "valid_name f" .
  from split_path_artifact [OF assms(1) this] hd show ?thesis by simp
qed

lemma level_keys_distinct:
  assumes "wf_node root"
  shows "distinct (map artifact_set_key
                     (filter (\<lambda>l. files_of (snd l) \<noteq> []) (dir_levels [] root)))"
proof -
  let ?ls = "filter (\<lambda>l. files_of (snd l) \<noteq> []) (dir_levels [] root)"
  from dir_levels_distinct(1) [OF assms, of "[]"] have d: "distinct (map fst (dir_levels [] root))" .
  then have dls: "distinct (map fst ?ls)" by (rule distinct_map_filter)
  have "l = l'" if "l \<in> set ?ls" "l' \<in> set ?ls" "artifact_set_key l = artifact_set_key l'" for l l'
  proof -
    obtain cs es where l: "l = (cs, es)" by (cases l)
    obtain cs' es' where l': "l' = (cs', es')" by (cases l')
    from that(1) l have m: "(cs, es) \<in> set (dir_levels [] root)" "files_of es \<noteq> []" by simp_all
    from that(2) l' have m': "(cs', es') \<in> set (dir_levels [] root)" "files_of es' \<noteq> []" by simp_all
    note lv = dir_levels_root [OF assms m(1)] and lv' = dir_levels_root [OF assms m'(1)]
    from key_comps [OF lv(1) lv(3) m(2)] key_comps [OF lv'(1) lv'(3) m'(2)] that(3) l l'
    have eq: "(if cs = [] then [''.''] else cs) = (if cs' = [] then [''.''] else cs')" by simp
    have "cs \<noteq> [''.'']" "cs' \<noteq> [''.'']"
      using lv(1) lv'(1) by (auto simp: valid_name_def)
    with eq have "cs = cs'" by (auto split: if_splits)
    with dls that(1,2) l l' show ?thesis
      by (auto simp: distinct_map inj_on_def)
  qed
  then have "inj_on artifact_set_key (set ?ls)" by (auto simp: inj_on_def)
  moreover from dls have "distinct ?ls" by (simp add: distinct_map)
  ultimately show ?thesis by (simp add: distinct_map)
qed

lemma registrations_of_distinct:
  assumes "wf_node root"
  shows "distinct (map fst (registrations_of mid root))"
  using level_keys_distinct [OF assms] by (simp add: registrations_of_def comp_def)

lemma registrations_of_id: "r \<in> set (registrations_of mid root) \<Longrightarrow> snd (snd r) = mid"
  by (auto simp: registrations_of_def)

lemma registrations_concat_distinct:
  "distinct (map fst ms) \<Longrightarrow> \<forall>m \<in> set ms. wf_node (snd m) \<Longrightarrow>
     distinct (concat (map (\<lambda>m. registrations_of (fst m) (snd m)) ms))"
proof (induction ms)
  case Nil
  show ?case by simp
next
  case (Cons m ms)
  from Cons.prems have "distinct (map fst (registrations_of (fst m) (snd m)))"
    by (simp add: registrations_of_distinct)
  then have here: "distinct (registrations_of (fst m) (snd m))"
    by (simp add: distinct_map)
  have "r \<notin> set (concat (map (\<lambda>m. registrations_of (fst m) (snd m)) ms))"
    if "r \<in> set (registrations_of (fst m) (snd m))" for r
  proof
    assume "r \<in> set (concat (map (\<lambda>m. registrations_of (fst m) (snd m)) ms))"
    then obtain m' where m': "m' \<in> set ms" "r \<in> set (registrations_of (fst m') (snd m'))"
      by auto
    from registrations_of_id [OF that] registrations_of_id [OF m'(2)]
    have "fst m' = fst m" by simp
    with m'(1) have "fst m \<in> fst ` set ms" by (metis imageI)
    with Cons.prems(1) show False by simp
  qed
  with here Cons show ?case by auto
qed

lemma registrations_distinct:
  assumes "wf_node (Dir mutants)"
  shows "distinct (registrations mutants)"
  unfolding registrations_def
  using wf_mutant_dirs [OF assms] by (intro registrations_concat_distinct) simp_all

lemma registrations_ids:
  "r \<in> set (registrations mutants) \<Longrightarrow> snd (snd r) \<in> fst ` set (mutant_dirs mutants)"
  by (auto simp: registrations_def dest: registrations_of_id)

subsection \<open>What the indexer registers\<close>

lemma registrations_iff:
  "(k, c, mid) \<in> set (registrations mutants) \<longleftrightarrow>
     (\<exists>root l. (mid, root) \<in> set (mutant_dirs mutants) \<and> l \<in> set (dir_levels [] root)
        \<and> files_of (snd l) \<noteq> [] \<and> k = artifact_set_key l \<and> c = content_key l)"
proof
  assume "(k, c, mid) \<in> set (registrations mutants)"
  then obtain m where m: "m \<in> set (mutant_dirs mutants)"
    and r: "(k, c, mid) \<in> set (registrations_of (fst m) (snd m))"
    by (auto simp: registrations_def)
  from r obtain l where l: "l \<in> set (dir_levels [] (snd m))" "files_of (snd l) \<noteq> []"
    "k = artifact_set_key l" "c = content_key l" and mid: "mid = fst m"
    by (auto simp: registrations_of_def)
  from m mid have "(mid, snd m) \<in> set (mutant_dirs mutants)" by simp
  with l show "\<exists>root l. (mid, root) \<in> set (mutant_dirs mutants) \<and> l \<in> set (dir_levels [] root)
        \<and> files_of (snd l) \<noteq> [] \<and> k = artifact_set_key l \<and> c = content_key l"
    by blast
next
  assume "\<exists>root l. (mid, root) \<in> set (mutant_dirs mutants) \<and> l \<in> set (dir_levels [] root)
        \<and> files_of (snd l) \<noteq> [] \<and> k = artifact_set_key l \<and> c = content_key l"
  then obtain root l where m: "(mid, root) \<in> set (mutant_dirs mutants)"
    and l: "l \<in> set (dir_levels [] root)" "files_of (snd l) \<noteq> []"
    "k = artifact_set_key l" "c = content_key l" by blast
  from l(1,2) have "l \<in> set (filter (\<lambda>l. files_of (snd l) \<noteq> []) (dir_levels [] root))"
    by simp
  then have "(artifact_set_key l, content_key l, mid) \<in> set (registrations_of mid root)"
    unfolding registrations_of_def set_map by (rule imageI)
  with l(3,4) have "(k, c, mid) \<in> set (registrations_of mid root)" by simp
  with m show "(k, c, mid) \<in> set (registrations mutants)"
    by (force simp: registrations_def)
qed

text \<open>
  C1. For a mutant root that is a well-formed directory tree, the indexing loop returns, and
  its state is the one reached by registering, for each mutant directory in turn, every
  directory level of its tree that has a file, under the sorted list of the names of the
  files of the level relative to the mutant's root and the bytes of these files in the order
  of the sorted names (which is what reading the key under the mutant's root gives). An id
  is a member of a class exactly when such a level of that mutant has the key and the
  content of the class; a level without files registers nothing.
\<close>

theorem indexer_registers_levels:
  assumes "wf_node (Dir mutants)"
  shows "index_pass mutants = Inr (register_all (registrations mutants) initial_state)
       \<and> (\<forall>k c mid. mid \<in> class_at (register_all (registrations mutants) initial_state) (k, c)
             \<longleftrightarrow> (\<exists>root l. (mid, root) \<in> set (mutant_dirs mutants)
                    \<and> l \<in> set (dir_levels [] root) \<and> files_of (snd l) \<noteq> []
                    \<and> k = artifact_set_key l \<and> c = content_key l))
       \<and> (\<forall>mid root l. (mid, root) \<in> set (mutant_dirs mutants) \<and> l \<in> set (dir_levels [] root)
             \<longrightarrow> artifact_set_key l = sort (map fst (artifacts l))
               \<and> read_name_tuple_from_root (artifact_set_key l) root = Inr (content_key l))"
proof -
  have a: "index_pass mutants = Inr (register_all (registrations mutants) initial_state)"
    by (rule index_pass_registrations [OF assms])
  have b: "mid \<in> class_at (register_all (registrations mutants) initial_state) (k, c)
             \<longleftrightarrow> (\<exists>root l. (mid, root) \<in> set (mutant_dirs mutants)
                    \<and> l \<in> set (dir_levels [] root) \<and> files_of (snd l) \<noteq> []
                    \<and> k = artifact_set_key l \<and> c = content_key l)" for k c mid
    by (simp add: class_at_register_all class_at_initial registrations_iff)
  have c: "artifact_set_key l = sort (map fst (artifacts l))
             \<and> read_name_tuple_from_root (artifact_set_key l) root = Inr (content_key l)"
    if "(mid, root) \<in> set (mutant_dirs mutants)" and "l \<in> set (dir_levels [] root)"
    for mid root l
  proof -
    from wf_mutant_dirs(1) [OF assms] that(1) have "wf_node root" by force
    from read_level [OF this that(2)] show ?thesis by (simp add: artifact_set_key_def)
  qed
  from a b c show ?thesis by blast
qed

lemma example_packages_wf: "wf_node (Dir example_packages)"
  by (simp add: example_packages_def valid_name_def)

lemma example_packages_registered:
  "register_all (registrations example_packages) initial_state = example_packages_state"
  unfolding example_packages_def example_packages_state_def initial_state_def by code_simp

theorem indexer_registers_levels_witness:
  "wf_node (Dir example_packages)
   \<and> index_pass example_packages = Inr example_packages_state
   \<and> ''7'' \<in> class_at example_packages_state ([''./Top.class''], [''t''])
   \<and> ''7'' \<in> class_at example_packages_state ([''a/X.class'', ''a/Z.class''], [''x'', ''z''])
   \<and> map fst (hashes example_packages_state) = [[''./Top.class''], [''a/X.class'', ''a/Z.class'']]"
proof -
  from indexer_registers_levels [OF example_packages_wf]
  have ip: "index_pass example_packages = Inr example_packages_state"
    by (simp add: example_packages_registered)
  have m1: "''7'' \<in> class_at example_packages_state ([''./Top.class''], [''t''])"
    by (simp add: example_packages_state_def class_at_def get_or_def)
  have m2: "''7'' \<in> class_at example_packages_state ([''a/X.class'', ''a/Z.class''], [''x'', ''z''])"
    by (simp add: example_packages_state_def class_at_def get_or_def)
  have ks: "map fst (hashes example_packages_state) = [[''./Top.class''], [''a/X.class'', ''a/Z.class'']]"
    by (simp add: example_packages_state_def)
  from example_packages_wf ip m1 m2 ks show ?thesis by blast
qed

subsection \<open>The list of references\<close>

lemma nth_notin_take:
  assumes "distinct rs" and "n < length rs"
  shows "rs ! n \<notin> set (take n rs)"
proof
  assume "rs ! n \<in> set (take n rs)"
  then obtain i where "i < n" and "take n rs ! i = rs ! n"
    by (auto simp: in_set_conv_nth)
  with assms(2) have "rs ! i = rs ! n" and "i < length rs" and "i \<noteq> n" by simp_all
  with assms show False by (simp add: nth_eq_iff_index_eq)
qed

lemma fresh_insertion:
  assumes "refs_inv st" and "m \<notin> class_at st (k, c)"
  shows "appended_at_threshold st (k, c, m)"
proof -
  from assms(1) have fin: "finite (class_at st (k, c))"
    unfolding refs_inv_def by blast
  with assms(2) have "card (insert m (class_at st (k, c))) = Suc (card (class_at st (k, c)))"
    by simp
  with assms(2) show ?thesis
    by (simp add: appended_at_threshold_def Let_def class_at_add_to_class nonsingleton_add_to_class)
qed

lemma register_all_steps:
  assumes "distinct rs"
    and "\<forall>r \<in> set rs. snd (snd r) \<notin> class_at st (fst r, fst (snd r))"
    and "refs_inv st"
    and "n < length rs"
  shows "appended_at_threshold (register_all (take n rs) st) (rs ! n)"
proof -
  obtain k c m where r: "rs ! n = (k, c, m)" by (cases "rs ! n")
  from assms(4) have mem: "rs ! n \<in> set rs" by simp
  with assms(2) r have "m \<notin> class_at st (k, c)" by force
  moreover from nth_notin_take [OF assms(1,4)] r have "(k, c, m) \<notin> set (take n rs)" by simp
  ultimately have "m \<notin> class_at (register_all (take n rs) st) (k, c)"
    by (simp add: class_at_register_all)
  moreover from assms(3) have "refs_inv (register_all (take n rs) st)"
    by (rule refs_inv_register_all)
  ultimately show ?thesis
    unfolding r by (rule fresh_insertion [rotated])
qed

lemma register_all_distinct_refs:
  "distinct rs \<Longrightarrow> \<forall>r \<in> set rs. snd (snd r) \<notin> class_at st (fst r, fst (snd r)) \<Longrightarrow>
     refs_inv st \<Longrightarrow> distinct (nonsingleton_equivalence_classes st) \<Longrightarrow>
     distinct (nonsingleton_equivalence_classes (register_all rs st))"
proof (induction rs arbitrary: st)
  case Nil
  then show ?case by simp
next
  case (Cons x rs)
  obtain k c m where x: "x = (k, c, m)" by (cases x)
  let ?st = "add_to_class k c m st"
  from Cons.prems(2) x have fresh: "m \<notin> class_at st (k, c)" by simp
  from Cons.prems(3) have fin: "finite (class_at st (k, c))"
    and ns: "set (nonsingleton_equivalence_classes st) = {r. 2 \<le> card (class_at st r)}"
    unfolding refs_inv_def by blast+
  from fin fresh have card: "card (insert m (class_at st (k, c))) = Suc (card (class_at st (k, c)))"
    by simp
  have "(k, c) \<notin> set (nonsingleton_equivalence_classes st)" if "card (class_at st (k, c)) = 1"
    using that ns by simp
  with Cons.prems(4) card have d: "distinct (nonsingleton_equivalence_classes ?st)"
    by (simp add: nonsingleton_add_to_class)
  have inv: "refs_inv ?st"
    by (rule refs_inv_add_to_class [OF Cons.prems(3)])
  have "snd (snd r) \<notin> class_at ?st (fst r, fst (snd r))" if "r \<in> set rs" for r
  proof -
    from that Cons.prems(1) x have "r \<noteq> (k, c, m)" by auto
    moreover from that Cons.prems(2) have "snd (snd r) \<notin> class_at st (fst r, fst (snd r))"
      by simp
    ultimately show ?thesis
      by (cases r) (auto simp: class_at_add_to_class)
  qed
  then have "\<forall>r \<in> set rs. snd (snd r) \<notin> class_at ?st (fst r, fst (snd r))" by blast
  from Cons.IH [OF _ this inv d] Cons.prems(1) show ?case by (simp add: x)
qed

lemma insertions_distinct:
  assumes "wf_node (Dir mutants)" and "''0'' \<notin> fst ` set (mutant_dirs mutants)"
  shows "distinct (insertions mutants program)"
proof -
  let ?regs = "registrations mutants"
  let ?keys = "map fst (hashes (register_all ?regs initial_state))"
  have "distinct ?keys"
    by (rule distinct_keys_register_all) (simp add: initial_state_def)
  then have "distinct (map fst (baseline_registrations program ?keys))"
    by (simp add: baseline_registrations_def comp_def)
  then have d2: "distinct (baseline_registrations program ?keys)"
    by (simp add: distinct_map)
  have "r \<notin> set (baseline_registrations program ?keys)" if "r \<in> set ?regs" for r
  proof
    assume "r \<in> set (baseline_registrations program ?keys)"
    then have "snd (snd r) = ''0''" by (auto simp: baseline_registrations_def)
    with registrations_ids [OF that] assms(2) show False by simp
  qed
  with registrations_distinct [OF assms(1)] d2 show ?thesis
    by (auto simp: insertions_def Let_def)
qed

lemma run_loops_insertions:
  assumes "wf_node (Dir mutants)" and "run_loops mutants program = Inr st"
  shows "st = register_all (insertions mutants program) initial_state"
proof -
  from run_loops_passes [OF assms(2)] obtain st1 where
    p1: "index_pass mutants = Inr st1" and p2: "baseline_pass program st1 = Inr st" by blast
  from p1 index_pass_registrations [OF assms(1)]
  have st1: "st1 = register_all (registrations mutants) initial_state" by simp
  from baseline_pass_registers(1) [OF p2] st1 show ?thesis
    by (simp add: insertions_def Let_def register_all_append)
qed

text \<open>
  C4. For a well-formed mutant root without a mutant directory named \<open>0\<close>, the state after
  the two loops is the one reached by the insertions of the run in their order (those of the
  mutants, then those of the baseline); each insertion adds a new member to its class and
  appends the class to the list exactly when the class goes from one member to two; the list
  holds no class twice, and holds exactly the classes with two members or more.
\<close>

theorem appended_once_at_threshold:
  assumes "wf_node (Dir mutants)"
    and "''0'' \<notin> fst ` set (mutant_dirs mutants)"
    and "run_loops mutants program = Inr st"
  shows "st = register_all (insertions mutants program) initial_state
       \<and> (\<forall>n < length (insertions mutants program).
             appended_at_threshold
               (register_all (take n (insertions mutants program)) initial_state)
               (insertions mutants program ! n))
       \<and> distinct (nonsingleton_equivalence_classes st)
       \<and> set (nonsingleton_equivalence_classes st) = {r. 2 \<le> card (class_at st r)}"
proof -
  let ?ins = "insertions mutants program"
  note st = run_loops_insertions [OF assms(1,3)]
  note d = insertions_distinct [OF assms(1,2), of program]
  have fresh: "\<forall>r \<in> set ?ins. snd (snd r) \<notin> class_at initial_state (fst r, fst (snd r))"
    by (simp add: class_at_initial)
  have steps: "\<forall>n < length ?ins.
      appended_at_threshold (register_all (take n ?ins) initial_state) (?ins ! n)"
    using register_all_steps [OF d fresh refs_inv_initial] by blast
  have "distinct (nonsingleton_equivalence_classes (register_all ?ins initial_state))"
    by (rule register_all_distinct_refs [OF d fresh refs_inv_initial])
      (simp add: initial_state_def)
  with st have dist: "distinct (nonsingleton_equivalence_classes st)" by simp
  from run_loops_refs_inv [OF assms(3)]
  have "set (nonsingleton_equivalence_classes st) = {r. 2 \<le> card (class_at st r)}"
    by (simp add: refs_inv_def)
  with st steps dist show ?thesis by blast
qed

lemma example_mutants_wf: "wf_node (Dir example_mutants)"
  by (simp add: example_mutants_def valid_name_def)

theorem appended_once_at_threshold_witness:
  "wf_node (Dir example_mutants)
   \<and> ''0'' \<notin> fst ` set (mutant_dirs example_mutants)
   \<and> run_loops example_mutants example_program = Inr example_state
   \<and> length (insertions example_mutants example_program) = 4
   \<and> nonsingleton_equivalence_classes example_state
       = [([''pkg/Foo.class''], [''abd'']), ([''pkg/Foo.class''], [''abc''])]
   \<and> distinct (nonsingleton_equivalence_classes example_state)
   \<and> appended_at_threshold
        (register_all (take 1 (insertions example_mutants example_program)) initial_state)
        (insertions example_mutants example_program ! 1)"
proof -
  have no0: "''0'' \<notin> fst ` set (mutant_dirs example_mutants)"
    by (simp add: example_mutants_def mutant_dirs_def)
  have len: "length (insertions example_mutants example_program) = 4"
    unfolding example_mutants_def example_program_def initial_state_def by code_simp
  have ns: "nonsingleton_equivalence_classes example_state
       = [([''pkg/Foo.class''], [''abd'']), ([''pkg/Foo.class''], [''abc''])]"
    by (simp add: example_state_def)
  note res = appended_once_at_threshold [OF example_mutants_wf no0 example_run_loops]
  from res have d: "distinct (nonsingleton_equivalence_classes example_state)" by blast
  from res len have
    "appended_at_threshold
        (register_all (take 1 (insertions example_mutants example_program)) initial_state)
        (insertions example_mutants example_program ! 1)"
    by simp
  with example_mutants_wf no0 example_run_loops len ns d show ?thesis by blast
qed

text \<open>
  Why the id \<open>0\<close> must not name a mutant: the test of lines 122 and 137 looks at the size after
  the \<open>add\<close>, not at a change of size. When mutants \<open>0\<close> and \<open>5\<close> share their bytes with the
  baseline, the class \<open>{0, 5}\<close> is appended by the indexing loop, and again by the baseline
  loop, whose \<open>add('0')\<close> leaves the class at two members.
\<close>

lemma mutant_named_0_appended_twice:
  "run_loops
     [(''0'', Dir [(''pkg'', Dir [(''Foo.class'', File ''abc'')])]),
      (''5'', Dir [(''pkg'', Dir [(''Foo.class'', File ''abc'')])])]
     example_program
   = Inr \<lparr>hashes = [([''pkg/Foo.class''], [([''abc''], {''0'', ''5''})])],
          nonsingleton_equivalence_classes =
            [([''pkg/Foo.class''], [''abc'']), ([''pkg/Foo.class''], [''abc''])]\<rparr>"
  unfolding example_program_def by code_simp

section \<open>Properties of \<open>compare_equiv_files.py\<close>\<close>

subsection \<open>The second visit\<close>

lemma collect_classes_1_last:
  "collect_classes_1 mm ms nv acc e = (acc', e') \<Longrightarrow>
     (acc' = acc \<and> e' = e) \<or> (acc' \<noteq> [] \<and> e' = last acc')"
proof (induction ms arbitrary: nv acc e)
  case Nil
  then show ?case by simp
next
  case (Cons m ms)
  show ?case
  proof (cases "m \<in> nv")
    case True
    with Cons show ?thesis by simp
  next
    case False
    show ?thesis
    proof (cases "map_of mm m")
      case None
      with False Cons show ?thesis by simp
    next
      case (Some c)
      with False Cons.prems
      have "collect_classes_1 mm ms (nv \<union> set c) (acc @ [c]) c = (acc', e')" by simp
      from Cons.IH [OF this] show ?thesis by auto
    qed
  qed
qed

lemma collect_classes_1_single:
  assumes "collect_classes_1 mm ms nv [] e = (acc', e')" and "length acc' = 1"
  shows "e' = hd acc'"
proof -
  from collect_classes_1_last [OF assms(1)] assms(2)
  have "e' = last acc'" by auto
  moreover from assms(2) obtain x where "acc' = [x]"
    by (cases acc') auto
  ultimately show ?thesis by simp
qed

lemma visit_file2_no_Both: "Both c cs \<notin> set (visit_file2 items mm visited)"
proof (induction items arbitrary: visited)
  case Nil
  show ?case by simp
next
  case (Cons item items)
  obtain mid ec2 where item: "item = (mid, ec2)" by (cases item)
  obtain ecs e' where col: "collect_classes_1 mm ec2 {} [] ec2 = (ecs, e')"
    by (cases "collect_classes_1 mm ec2 {} [] ec2")
  have "length ecs = 1 \<Longrightarrow> set e' \<subseteq> set (hd ecs)"
    using collect_classes_1_single [OF col] by simp
  then show ?case
    using Cons.IH col by (auto simp: item)
qed

text \<open>
  C6. The second visit (file 2 as primary) never prints a line that shows a class and the
  class it corresponds to: line 93 binds \<open>ec2\<close>, the name of the primary class, to the class
  found in the first file, so the test of line 100 compares that class with itself. With
  file 1 = \<open>1 2\<close> and file 2 = \<open>1 2 3\<close>, the class \<open>{1, 2, 3}\<close> of file 2 corresponds to the one
  class \<open>{1, 2}\<close> of file 1 and is not a subset of it, and nothing is printed; the first visit
  prints the mismatch when the files are swapped.
\<close>

theorem second_visit_misses_mismatch:
  "Both c cs \<notin> set (snd (main order f1 f2))
   \<and> main remdups [''1 2''] [''1 2 3''] = ([], [])
   \<and> main remdups [''1 2 3''] [''1 2''] = ([Both [''1'', ''2'', ''3''] [[''1'', ''2'']]], [])"
proof -
  have "Both c cs \<notin> set (snd (main order f1 f2))"
    by (simp add: main_def Let_def visit_file2_no_Both)
  moreover have "main remdups [''1 2''] [''1 2 3''] = ([], [])"
    by code_simp
  moreover have
    "main remdups [''1 2 3''] [''1 2''] = ([Both [''1'', ''2'', ''3''] [[''1'', ''2'']]], [])"
    by code_simp
  ultimately show ?thesis by simp
qed

subsection \<open>The index of a file\<close>

text \<open>
  Parsing cuts at every white space character, U+0085 and U+00A0 included, and drops the
  lines that hold nothing else.
\<close>

lemma read_equivs_wide_space:
  "read_equivs [''1'' @ [CHR 0xA0] @ ''2'', [CHR 0x85], ''3'' @ [CHR 0x85] @ ''4'' @ [CHR 0xA0]]
     = [[''1'', ''2''], [''3'', ''4'']]"
  by code_simp

lemma valid_order_remdups: "valid_order remdups"
  by (simp add: valid_order_def)

lemma map_of_add_elems:
  "map_of (add_elems s elems mm) m = (if m \<in> set elems then Some s else map_of mm m)"
  by (induction elems arbitrary: mm) (auto simp: update_conv')

lemma last_line_with_Cons:
  "last_line_with m (ec # rest) =
     (case last_line_with m rest of
        None \<Rightarrow> (if m \<in> set ec then Some ec else None)
      | Some l \<Rightarrow> Some l)"
  by (simp add: last_line_with_def Let_def)

lemma map_of_build_mid_map:
  "map_of (build_mid_map order equivs mm) m =
     (case last_line_with m equivs of None \<Rightarrow> map_of mm m | Some ec \<Rightarrow> Some (order ec))"
proof (induction equivs arbitrary: mm)
  case Nil
  show ?case by (simp add: last_line_with_def)
next
  case (Cons ec rest)
  show ?case
    by (simp add: Cons.IH last_line_with_Cons map_of_add_elems split: option.splits)
qed

lemma distinct_add_elems:
  "distinct (map fst mm) \<Longrightarrow> distinct (map fst (add_elems s elems mm))"
  by (induction elems arbitrary: mm) (simp_all add: distinct_update)

lemma distinct_build_mid_map:
  "distinct (map fst mm) \<Longrightarrow> distinct (map fst (build_mid_map order equivs mm))"
  by (induction equivs arbitrary: mm) (simp_all add: distinct_add_elems)

lemma last_line_with_SomeD:
  assumes "last_line_with m equivs = Some c"
  shows "c \<in> set equivs \<and> m \<in> set c"
proof -
  let ?xs = "filter (\<lambda>ec. m \<in> set ec) equivs"
  from assms have ne: "?xs \<noteq> []" and c: "c = last ?xs"
    by (auto simp: last_line_with_def Let_def split: if_splits)
  from ne have "last ?xs \<in> set ?xs" by (rule last_in_set)
  with c show ?thesis by auto
qed

lemma pairwise_disjoint_filter:
  "pairwise_disjoint equivs \<Longrightarrow> c \<in> set equivs \<Longrightarrow> m \<in> set c \<Longrightarrow>
     filter (\<lambda>ec. m \<in> set ec) equivs = [c]"
proof (induction equivs)
  case Nil
  then show ?case by simp
next
  case (Cons d ds)
  show ?case
  proof (cases "c = d")
    case True
    from Cons.prems True have "\<forall>e \<in> set ds. m \<notin> set e" by auto
    then have "filter (\<lambda>ec. m \<in> set ec) ds = []" by (simp add: filter_empty_conv)
    with True Cons.prems show ?thesis by simp
  next
    case False
    with Cons.prems have cin: "c \<in> set ds" by simp
    with Cons.prems have "m \<notin> set d" by auto
    with Cons cin show ?thesis by simp
  qed
qed

lemma pairwise_disjoint_last_line:
  assumes "pairwise_disjoint equivs" "last_line_with m equivs = Some c" "m' \<in> set c"
  shows "last_line_with m' equivs = Some c"
proof -
  from last_line_with_SomeD [OF assms(2)] have "c \<in> set equivs" by simp
  from pairwise_disjoint_filter [OF assms(1) this assms(3)]
  show ?thesis by (simp add: last_line_with_def)
qed

lemma closed_build_mid_map:
  assumes vo: "valid_order order" and pd: "pairwise_disjoint equivs"
    and look: "map_of (build_mid_map order equivs []) mid = Some ec"
  shows "closed_class (build_mid_map order equivs []) ec"
proof -
  from look obtain c where c: "last_line_with mid equivs = Some c" and ec: "ec = order c"
    by (auto simp: map_of_build_mid_map split: option.splits)
  from vo have seteq: "set ec = set c" by (simp add: ec valid_order_def)
  from last_line_with_SomeD [OF c] have "mid \<in> set c" by simp
  with seteq have "ec \<noteq> []" by auto
  moreover have "map_of (build_mid_map order equivs []) m' = Some ec" if "m' \<in> set ec" for m'
  proof -
    from that seteq have "m' \<in> set c" by simp
    from pairwise_disjoint_last_line [OF pd c this]
    show ?thesis by (simp add: map_of_build_mid_map ec)
  qed
  ultimately show ?thesis by (simp add: closed_class_def)
qed

lemma collect_classes_2_visited:
  "\<forall>m \<in> set ms. m \<in> nv \<Longrightarrow> collect_classes_2 mm ms nv acc = acc"
  by (induction ms) simp_all

lemma collect_classes_1_visited:
  "\<forall>m \<in> set ms. m \<in> nv \<Longrightarrow> collect_classes_1 mm ms nv acc e = (acc, e)"
  by (induction ms) simp_all

lemma collect_classes_2_closed:
  assumes "closed_class mm ec"
  shows "collect_classes_2 mm ec {} [] = [ec]"
proof -
  from assms obtain x xs where ec: "ec = x # xs"
    by (cases ec) (auto simp: closed_class_def)
  from assms have "map_of mm x = Some ec" by (simp add: closed_class_def ec)
  then have "collect_classes_2 mm ec {} [] = collect_classes_2 mm xs (set ec) [ec]"
    by (simp add: ec)
  also have "\<dots> = [ec]"
    by (rule collect_classes_2_visited) (simp add: ec)
  finally show ?thesis .
qed

lemma collect_classes_1_closed:
  assumes "closed_class mm ec"
  shows "collect_classes_1 mm ec {} [] ec = ([ec], ec)"
proof -
  from assms obtain x xs where ec: "ec = x # xs"
    by (cases ec) (auto simp: closed_class_def)
  from assms have "map_of mm x = Some ec" by (simp add: closed_class_def ec)
  then have "collect_classes_1 mm ec {} [] ec = collect_classes_1 mm xs (set ec) [ec] ec"
    by (simp add: ec)
  also have "\<dots> = ([ec], ec)"
    by (rule collect_classes_1_visited) (simp add: ec)
  finally show ?thesis .
qed

lemma visit_file1_closed:
  "\<forall>item \<in> set items. closed_class mm (snd item) \<Longrightarrow> visit_file1 items mm visited = []"
proof (induction items arbitrary: visited)
  case Nil
  show ?case by simp
next
  case (Cons item items)
  obtain mid ec where item: "item = (mid, ec)" by (cases item)
  from Cons.prems item have "closed_class mm ec" by simp
  from collect_classes_2_closed [OF this] Cons show ?case
    by (simp add: item)
qed

lemma visit_file2_closed:
  "\<forall>item \<in> set items. closed_class mm (snd item) \<Longrightarrow> visit_file2 items mm visited = []"
proof (induction items arbitrary: visited)
  case Nil
  show ?case by simp
next
  case (Cons item items)
  obtain mid ec where item: "item = (mid, ec)" by (cases item)
  from Cons.prems item have "closed_class mm ec" by simp
  from collect_classes_1_closed [OF this] Cons show ?case
    by (simp add: item)
qed

lemma items_closed:
  assumes "valid_order order" "pairwise_disjoint equivs"
  shows "\<forall>item \<in> set (build_mid_map order equivs []). closed_class (build_mid_map order equivs []) (snd item)"
proof
  fix item assume "item \<in> set (build_mid_map order equivs [])"
  moreover have "distinct (map fst (build_mid_map order equivs []))"
    by (rule distinct_build_mid_map) simp
  ultimately have "map_of (build_mid_map order equivs []) (fst item) = Some (snd item)"
    by (intro map_of_is_SomeI) simp_all
  from closed_build_mid_map [OF assms this]
  show "closed_class (build_mid_map order equivs []) (snd item)" .
qed

text \<open>
  C10. The index of a file maps an id to the class built from the last line on which the id
  occurs, and to nothing else: the lookups of both visits (\<open>map_of\<close>) and the items the visits
  run over give, for every id, the set of the tokens of that line.
\<close>

theorem mid_map_last_line:
  "map_of (mid_map_of order f) mid = map_option order (last_line_with mid (read_equivs f))
   \<and> ((mid, ec) \<in> set (mid_map_of order f) \<longleftrightarrow> map_of (mid_map_of order f) mid = Some ec)
   \<and> (valid_order order \<and> map_of (mid_map_of order f) mid = Some ec \<longrightarrow>
        (\<exists>line. last_line_with mid (read_equivs f) = Some line \<and> set ec = set line))"
proof -
  have look: "map_of (mid_map_of order f) mid = map_option order (last_line_with mid (read_equivs f))"
    by (simp add: mid_map_of_def map_of_build_mid_map split: option.splits)
  have "distinct (map fst (mid_map_of order f))"
    unfolding mid_map_of_def by (rule distinct_build_mid_map) simp
  then have items: "(mid, ec) \<in> set (mid_map_of order f) \<longleftrightarrow> map_of (mid_map_of order f) mid = Some ec"
    by simp
  have "\<exists>line. last_line_with mid (read_equivs f) = Some line \<and> set ec = set line"
    if "valid_order order" and "map_of (mid_map_of order f) mid = Some ec"
    using that look by (auto simp: valid_order_def)
  with look items show ?thesis by blast
qed

theorem mid_map_last_line_witness:
  "valid_order remdups
   \<and> map_of (mid_map_of remdups [''1 2'', ''2 3'']) ''2'' = Some [''2'', ''3'']
   \<and> last_line_with ''2'' (read_equivs [''1 2'', ''2 3'']) = Some [''2'', ''3'']
   \<and> (''2'', [''2'', ''3'']) \<in> set (mid_map_of remdups [''1 2'', ''2 3''])"
proof -
  have l: "last_line_with ''2'' (read_equivs [''1 2'', ''2 3'']) = Some [''2'', ''3'']"
    by code_simp
  from mid_map_last_line [of remdups "[''1 2'', ''2 3'']" "''2''" "[''2'', ''3'']"] l
  show ?thesis by (simp add: valid_order_remdups)
qed

subsection \<open>A file compared with itself\<close>

text \<open>
  C9. For a file in which no id occurs in two classes, and for every iteration order of the
  sets, comparing the file with itself prints nothing, in the first visit and in the second.
\<close>

theorem compare_file_with_itself:
  assumes "valid_order order" and "pairwise_disjoint (read_equivs f)"
  shows "main order f f = ([], [])"
  using items_closed [OF assms]
  by (simp add: main_def mid_map_of_def Let_def visit_file1_closed visit_file2_closed)

theorem compare_file_with_itself_witness:
  "valid_order remdups
   \<and> pairwise_disjoint (read_equivs [''0 5'', '''', ''1  2 3'', ''7''])
   \<and> main remdups [''0 5'', '''', ''1  2 3'', ''7''] [''0 5'', '''', ''1  2 3'', ''7''] = ([], [])"
proof -
  have pd: "pairwise_disjoint (read_equivs [''0 5'', '''', ''1  2 3'', ''7''])"
    by code_simp
  from compare_file_with_itself [OF valid_order_remdups pd] pd
  show ?thesis by (simp add: valid_order_remdups)
qed

subsection \<open>The baseline id in the comparator\<close>

lemma visit_file1_skips_visited:
  "v \<in> visited \<Longrightarrow>
     visit_file1 items mm visited = visit_file1 (filter (\<lambda>item. fst item \<noteq> v) items) mm visited"
proof (induction items arbitrary: visited)
  case Nil
  show ?case by simp
next
  case (Cons item items)
  obtain mid ec where item: "item = (mid, ec)" by (cases item)
  from Cons.prems have "v \<in> visited \<union> set ec" by simp
  with Cons show ?case by (auto simp: item Let_def)
qed

lemma visit_file2_skips_visited:
  "v \<in> visited \<Longrightarrow>
     visit_file2 items mm visited = visit_file2 (filter (\<lambda>item. fst item \<noteq> v) items) mm visited"
proof (induction items arbitrary: visited)
  case Nil
  show ?case by simp
next
  case (Cons item items)
  obtain mid ec where item: "item = (mid, ec)" by (cases item)
  from Cons.prems have "v \<in> visited \<union> set ec" by simp
  with Cons show ?case by (auto simp: item split: prod.splits)
qed

lemma collect_classes_2_keeps:
  "acc \<noteq> [] \<Longrightarrow> collect_classes_2 mm ms nv acc \<noteq> []"
  by (induction ms arbitrary: nv acc) (auto split: option.splits)

lemma collect_classes_2_member:
  "m \<in> set ms \<Longrightarrow> map_of mm m = Some c \<Longrightarrow> nv = {} \<or> acc \<noteq> [] \<Longrightarrow>
     collect_classes_2 mm ms nv acc \<noteq> []"
proof (induction ms arbitrary: nv acc)
  case Nil
  then show ?case by simp
next
  case (Cons x xs)
  show ?case
  proof (cases "x \<in> nv")
    case True
    with Cons.prems have "acc \<noteq> []" by auto
    then show ?thesis by (rule collect_classes_2_keeps)
  next
    case False
    show ?thesis
    proof (cases "map_of mm x")
      case None
      with Cons.prems have "m \<in> set xs" by auto
      from Cons.IH [OF this Cons.prems(2) Cons.prems(3)] False None show ?thesis by simp
    next
      case (Some d)
      have "collect_classes_2 mm xs (nv \<union> set d) (acc @ [d]) \<noteq> []"
        by (rule collect_classes_2_keeps) simp
      with False Some show ?thesis by simp
    qed
  qed
qed

lemma collect_classes_1_keeps:
  "acc \<noteq> [] \<Longrightarrow> fst (collect_classes_1 mm ms nv acc e) \<noteq> []"
  by (induction ms arbitrary: nv acc e) (auto split: option.splits)

lemma collect_classes_1_member:
  "m \<in> set ms \<Longrightarrow> map_of mm m = Some c \<Longrightarrow> nv = {} \<or> acc \<noteq> [] \<Longrightarrow>
     fst (collect_classes_1 mm ms nv acc e) \<noteq> []"
proof (induction ms arbitrary: nv acc e)
  case Nil
  then show ?case by simp
next
  case (Cons x xs)
  show ?case
  proof (cases "x \<in> nv")
    case True
    with Cons.prems have "acc \<noteq> []" by auto
    then show ?thesis by (rule collect_classes_1_keeps)
  next
    case False
    show ?thesis
    proof (cases "map_of mm x")
      case None
      with Cons.prems have "m \<in> set xs" by auto
      from Cons.IH [OF this Cons.prems(2) Cons.prems(3)] False None show ?thesis by simp
    next
      case (Some d)
      have "fst (collect_classes_1 mm xs (nv \<union> set d) (acc @ [d]) d) \<noteq> []"
        by (rule collect_classes_1_keeps) simp
      with False Some show ?thesis by simp
    qed
  qed
qed

text \<open>
  C7, as the claim states it, fails: with file 1 = \<open>0 5\<close> and file 2 = \<open>0 7\<close>, the member \<open>0\<close> of
  the class \<open>{0, 5}\<close> contributes the class \<open>{0, 7}\<close> of file 2, the only one found (without \<open>0\<close>
  none is found), and the first visit prints a mismatch where it would print the class alone.
\<close>

theorem baseline_id_contributes:
  "collect_classes_2 (mid_map_of remdups [''0 7'']) [''0'', ''5''] {} [] = [[''0'', ''7'']]
   \<and> collect_classes_2 (mid_map_of remdups [''0 7'']) [''5''] {} [] = []
   \<and> main remdups [''0 5''] [''0 7''] = ([Both [''0'', ''5''] [[''0'', ''7'']]], [])"
  by code_simp

text \<open>
  C7, amended. The id \<open>0\<close> is kept out of the set \<open>mids\<close> (which nothing reads) and is never
  the id a visit starts a class from: both visits skip the entry of \<open>0\<close> in the primary index.
  In the collection of the corresponding classes \<open>0\<close> is a member like any other: when the
  primary class holds \<open>0\<close> and the index of the other file has \<open>0\<close>, at least one class is
  collected.
\<close>

theorem baseline_id_only_skipped_as_start:
  "''0'' \<notin> mids_of equivs1 equivs2
   \<and> visit_file1 mid_map_1 mid_map_2 {''0''}
       = visit_file1 (filter (\<lambda>item. fst item \<noteq> ''0'') mid_map_1) mid_map_2 {''0''}
   \<and> visit_file2 mid_map_2 mid_map_1 {''0''}
       = visit_file2 (filter (\<lambda>item. fst item \<noteq> ''0'') mid_map_2) mid_map_1 {''0''}
   \<and> (''0'' \<in> set ec1 \<and> map_of mid_map_2 ''0'' \<noteq> None \<longrightarrow>
        collect_classes_2 mid_map_2 ec1 {} [] \<noteq> [])
   \<and> (''0'' \<in> set ec2 \<and> map_of mid_map_1 ''0'' \<noteq> None \<longrightarrow>
        fst (collect_classes_1 mid_map_1 ec2 {} [] ec2) \<noteq> [])"
proof -
  have a: "''0'' \<notin> mids_of equivs1 equivs2"
    by (simp add: mids_of_def)
  have b: "visit_file1 mid_map_1 mid_map_2 {''0''}
       = visit_file1 (filter (\<lambda>item. fst item \<noteq> ''0'') mid_map_1) mid_map_2 {''0''}"
    by (rule visit_file1_skips_visited) simp
  have c: "visit_file2 mid_map_2 mid_map_1 {''0''}
       = visit_file2 (filter (\<lambda>item. fst item \<noteq> ''0'') mid_map_2) mid_map_1 {''0''}"
    by (rule visit_file2_skips_visited) simp
  have d: "collect_classes_2 mid_map_2 ec1 {} [] \<noteq> []"
    if "''0'' \<in> set ec1" and "map_of mid_map_2 ''0'' \<noteq> None"
  proof -
    from that(2) obtain y where "map_of mid_map_2 ''0'' = Some y" by auto
    from collect_classes_2_member [OF that(1) this] show ?thesis by simp
  qed
  have e: "fst (collect_classes_1 mid_map_1 ec2 {} [] ec2) \<noteq> []"
    if "''0'' \<in> set ec2" and "map_of mid_map_1 ''0'' \<noteq> None"
  proof -
    from that(2) obtain y where "map_of mid_map_1 ''0'' = Some y" by auto
    from collect_classes_1_member [OF that(1) this] show ?thesis by simp
  qed
  from a b c d e show ?thesis by blast
qed

theorem baseline_id_only_skipped_as_start_witness:
  "''0'' \<in> set [''0'', ''5'']
   \<and> map_of (mid_map_of remdups [''0 7'']) ''0'' \<noteq> None
   \<and> collect_classes_2 (mid_map_of remdups [''0 7'']) [''0'', ''5''] {} [] \<noteq> []
   \<and> ''0'' \<notin> mids_of [[''0'', ''5'']] [[''0'', ''7'']]"
proof -
  have l: "map_of (mid_map_of remdups [''0 7'']) ''0'' \<noteq> None"
    by code_simp
  from baseline_id_only_skipped_as_start
    [of "[[''0'', ''5'']]" "[[''0'', ''7'']]" "[]" "mid_map_of remdups [''0 7'']" "[''0'', ''5'']" "[]"] l
  show ?thesis by simp
qed

end
